theory Spec2Isabelle
  imports Complex_Main
begin

section \<open>Graph module: data\<close>

text \<open>
  Every JavaScript \<open>number\<close> of the engine that measures something (coordinates, money, hit
  points, timers) is an ideal real: no rounding and no NaN. The distances that
  \<open>bellmanFord\<close> computes are doubles, and the rounding of each sum is written out. Counters that the program only
  ever steps by one or compares with integer literals (stage, wave, lives, tier, remaining
  spawns) are integers. Field names carry a prefix where two interfaces of the source share
  a name (\<open>id\<close>, \<open>x\<close>, \<open>y\<close>) or where the name is reserved (\<open>from\<close>, \<open>to\<close>, \<open>range\<close>).
\<close>

record Node =
  n_id :: string
  n_x :: real
  n_y :: real
  isPath :: bool
  n_towerId :: "string option"

record Edge =
  efrom :: string
  eto :: string
  weight :: real
  isWarp :: bool

text \<open>
  The numbers \<open>bellmanFord\<close> stores as distances: a finite double, \<open>Infinity\<close> or
  \<open>-Infinity\<close>. A finite double is written as the real it denotes (negative zero is zero).
  An edge weight is a finite number too, so no sum below is NaN.
\<close>

datatype jsnum = Fin real | Infinity | NegInfinity

text \<open>
  The double nearest to a real, ties to the even significand (IEEE 754 binary64, the
  rounding of \<open>+\<close> on numbers): for \<open>2 ^ e \<le> \<bar>x\<bar> < 2 ^ (e + 1)\<close> the doubles are the
  multiples of \<open>2 ^ (e - 52)\<close>, with \<open>e\<close> no smaller than \<open>- 1022\<close>; a result of magnitude
  \<open>2 ^ 1024\<close> or more is infinite.
\<close>

definition pow2 :: "int \<Rightarrow> real" where
  "pow2 k = (if 0 \<le> k then 2 ^ nat k else 1 / 2 ^ nat (- k))"

definition round_half_even :: "real \<Rightarrow> int" where
  "round_half_even q =
     (let f = \<lfloor>q\<rfloor> in
        if q - of_int f < 1 / 2 then f
        else if 1 / 2 < q - of_int f then f + 1
        else if even f then f else f + 1)"

definition to_double :: "real \<Rightarrow> jsnum" where
  "to_double x =
     (if x = 0 then Fin 0
      else (let e = max \<lfloor>log 2 \<bar>x\<bar>\<rfloor> (- 1022);
                u = pow2 (e - 52);
                y = of_int (round_half_even (x / u)) * u
            in if 2 ^ 1024 \<le> \<bar>y\<bar> then (if 0 < y then Infinity else NegInfinity) else Fin y))"

fun num_add :: "jsnum \<Rightarrow> real \<Rightarrow> jsnum" where
  "num_add (Fin a) w = to_double (a + w)"
| "num_add Infinity w = Infinity"
| "num_add NegInfinity w = NegInfinity"

fun num_less :: "jsnum \<Rightarrow> jsnum \<Rightarrow> bool" where
  "num_less (Fin a) (Fin b) = (a < b)"
| "num_less (Fin a) Infinity = True"
| "num_less (Fin a) NegInfinity = False"
| "num_less Infinity b = False"
| "num_less NegInfinity (Fin b) = True"
| "num_less NegInfinity Infinity = True"
| "num_less NegInfinity NegInfinity = False"

record PathResult =
  distances :: "string \<rightharpoonup> jsnum"
  predecessors :: "string \<rightharpoonup> string option"
  hasNegativeCycle :: bool

record Graph =
  g_nodes :: "Node list"
  g_edges :: "Edge list"
  g_startNodeId :: string
  g_endNodeId :: string

definition GRID_SIZE :: nat where "GRID_SIZE = 10"
definition NODE_SPACING :: real where "NODE_SPACING = 60"
definition MARGIN :: real where "MARGIN = 40"

section \<open>Graph module: node names\<close>

text \<open>The template literal \<open>`node_${x}_${y}`\<close>: decimal rendering of the two integers.\<close>

definition digit_char :: "nat \<Rightarrow> char" where
  "digit_char n = char_of (48 + n)"

fun show_nat :: "nat \<Rightarrow> string" where
  "show_nat n = (if n < 10 then [digit_char n] else show_nat (n div 10) @ [digit_char (n mod 10)])"

declare show_nat.simps [simp del]

definition show_int :: "int \<Rightarrow> string" where
  "show_int i = (if i < 0 then CHR ''-'' # show_nat (nat (- i)) else show_nat (nat i))"

definition node_name :: "int \<Rightarrow> int \<Rightarrow> string" where
  "node_name x y = ''node_'' @ show_int x @ ''_'' @ show_int y"

section \<open>Graph module: generateGraph\<close>

text \<open>
  \<open>Math.random()\<close> is an explicit source: \<open>rnd i\<close> is the value of the \<open>i\<close>-th call, and
  every function that draws returns the index of the next call.
\<close>

definition goRight :: "(nat \<Rightarrow> real) \<Rightarrow> nat \<Rightarrow> nat \<Rightarrow> nat \<Rightarrow> bool" where
  "goRight rnd i curX curY =
     (curX < GRID_SIZE - 1 \<and> (curY = GRID_SIZE - 1 \<or> rnd i > 0.5))"

text \<open>The short-circuit condition draws a number only when its first two tests leave it open.\<close>

definition drawn :: "nat \<Rightarrow> nat \<Rightarrow> nat \<Rightarrow> nat" where
  "drawn i curX curY = (if curX < GRID_SIZE - 1 \<and> curY \<noteq> GRID_SIZE - 1 then Suc i else i)"

partial_function (option) createPath_loop ::
  "(nat \<Rightarrow> real) \<Rightarrow> nat \<Rightarrow> nat \<Rightarrow> nat \<Rightarrow> string set \<Rightarrow> (string set \<times> nat) option" where
  "createPath_loop rnd i curX curY ids =
     (if curX < GRID_SIZE - 1 \<or> curY < GRID_SIZE - 1 then
        (if goRight rnd i curX curY then
           createPath_loop rnd (drawn i curX curY) (curX + 1) curY
             (insert (node_name (int (curX + 1)) (int curY)) ids)
         else if curY < GRID_SIZE - 1 then
           createPath_loop rnd (drawn i curX curY) curX (curY + 1)
             (insert (node_name (int curX) (int (curY + 1))) ids)
         else
           createPath_loop rnd (drawn i curX curY) curX curY
             (insert (node_name (int curX) (int curY)) ids))
      else Some (ids, i))"

definition createPath :: "(nat \<Rightarrow> real) \<Rightarrow> nat \<Rightarrow> string set \<Rightarrow> (string set \<times> nat) option" where
  "createPath rnd i ids = createPath_loop rnd i 0 0 (insert (node_name 0 0) ids)"

fun createPaths ::
  "(nat \<Rightarrow> real) \<Rightarrow> nat \<Rightarrow> nat \<Rightarrow> string set \<Rightarrow> (string set \<times> nat) option" where
  "createPaths rnd 0 i ids = Some (ids, i)"
| "createPaths rnd (Suc k) i ids =
     (case createPath rnd i ids of
        None \<Rightarrow> None
      | Some (ids', i') \<Rightarrow> createPaths rnd k i' ids')"

fun addExtra :: "(nat \<Rightarrow> real) \<Rightarrow> nat \<Rightarrow> nat \<Rightarrow> string set \<Rightarrow> string set \<times> nat" where
  "addExtra rnd 0 i ids = (ids, i)"
| "addExtra rnd (Suc k) i ids =
     (let rx = \<lfloor>rnd i * real GRID_SIZE\<rfloor>;
          ry = \<lfloor>rnd (Suc i) * real GRID_SIZE\<rfloor>
      in addExtra rnd k (i + 2) (insert (node_name rx ry) ids))"

definition gridNodes :: "Node list" where
  "gridNodes =
     concat (map (\<lambda>y. map (\<lambda>x.
       \<lparr> n_id = node_name (int x) (int y),
         n_x = MARGIN + real x * NODE_SPACING,
         n_y = MARGIN + real y * NODE_SPACING,
         isPath = False,
         n_towerId = None \<rparr>) [0..<GRID_SIZE]) [0..<GRID_SIZE])"

definition markPath :: "string set \<Rightarrow> Node list \<Rightarrow> Node list" where
  "markPath pathNodeIds ns =
     map (\<lambda>n. if n_id n \<in> pathNodeIds then n\<lparr>isPath := True\<rparr> else n) ns"

definition neighborEdges :: "string set \<Rightarrow> nat \<Rightarrow> nat \<Rightarrow> Edge list" where
  "neighborEdges pathNodeIds x y =
     concat (map (\<lambda>(nbx, nby).
       if nbx < GRID_SIZE \<and> nby < GRID_SIZE then
         (if node_name (int x) (int y) \<in> pathNodeIds
             \<and> node_name (int nbx) (int nby) \<in> pathNodeIds then
            [ \<lparr> efrom = node_name (int x) (int y), eto = node_name (int nbx) (int nby),
                weight = 10, isWarp = False \<rparr>,
              \<lparr> efrom = node_name (int nbx) (int nby), eto = node_name (int x) (int y),
                weight = 10, isWarp = False \<rparr> ]
          else [])
       else []) [(x + 1, y), (x, y + 1)])"

definition gridEdges :: "string set \<Rightarrow> Edge list" where
  "gridEdges pathNodeIds =
     concat (map (\<lambda>y. concat (map (\<lambda>x. neighborEdges pathNodeIds x y) [0..<GRID_SIZE]))
       [0..<GRID_SIZE])"

text \<open>
  \<open>xs[Math.floor(r * xs.length)]\<close>: \<open>None\<close> is JavaScript's \<open>undefined\<close> for an index
  outside the array.
\<close>

definition pick :: "'a list \<Rightarrow> real \<Rightarrow> 'a option" where
  "pick xs r =
     (let k = \<lfloor>r * real (length xs)\<rfloor>
      in if 0 \<le> k \<and> k < int (length xs) then Some (xs ! nat k) else None)"

definition gx :: "Node \<Rightarrow> real" where "gx n = (n_x n - MARGIN) / NODE_SPACING"
definition gy :: "Node \<Rightarrow> real" where "gy n = (n_y n - MARGIN) / NODE_SPACING"

definition MIN_DIST_TO_END :: real where "MIN_DIST_TO_END = 8"

text \<open>
  The warp block. The result \<open>None\<close> is the TypeError of reading \<open>.x\<close> of an \<open>undefined\<close>
  endpoint, which needs a random value outside \<open>[0, 1)\<close>.
\<close>

definition warpEdges :: "(nat \<Rightarrow> real) \<Rightarrow> nat \<Rightarrow> int \<Rightarrow> Node list \<Rightarrow> Edge list option" where
  "warpEdges rnd i stage ns =
     (if stage \<ge> 2 then
        (let pNodes = filter isPath ns in
         if length pNodes > 10 then
           (let candidateFromNodes =
                  filter (\<lambda>n. gx n + gy n < real GRID_SIZE * 0.4) pNodes;
                candidateToNodes =
                  filter (\<lambda>n. (real GRID_SIZE - 1 - gx n) + (real GRID_SIZE - 1 - gy n)
                                 \<ge> MIN_DIST_TO_END) pNodes
            in if length candidateFromNodes > 0 \<and> length candidateToNodes > 0 then
                 (case (pick candidateFromNodes (rnd i), pick candidateToNodes (rnd (Suc i))) of
                    (Some from, Some to) \<Rightarrow>
                      (let warpDistance = (gx to + gy to) - (gx from + gy from);
                           totalDistanceEstimate = (real GRID_SIZE - 1) * 2
                       in if n_id from \<noteq> n_id to \<and> warpDistance > 2
                             \<and> warpDistance < totalDistanceEstimate * 0.5
                          then Some [\<lparr> efrom = n_id from, eto = n_id to,
                                       weight = - 15, isWarp = True \<rparr>]
                          else Some [])
                  | _ \<Rightarrow> None)
               else Some [])
         else Some [])
      else Some [])"

definition generateGraph :: "(nat \<Rightarrow> real) \<Rightarrow> int \<Rightarrow> Graph option" where
  "generateGraph rnd stage =
     (case createPaths rnd (nat (min stage 3)) 0 {} of
        None \<Rightarrow> None
      | Some (ids1, i1) \<Rightarrow>
          (let (pathNodeIds, i2) = addExtra rnd (nat (10 + stage * 5)) i1 ids1;
               ns = markPath pathNodeIds gridNodes;
               es = gridEdges pathNodeIds
           in case warpEdges rnd i2 stage ns of
                None \<Rightarrow> None
              | Some w \<Rightarrow>
                  Some \<lparr> g_nodes = ns, g_edges = es @ w,
                         g_startNodeId = ''node_0_0'',
                         g_endNodeId = node_name (int (GRID_SIZE - 1)) (int (GRID_SIZE - 1)) \<rparr>))"

section \<open>Graph module: bellmanFord\<close>

text \<open>
  The two tables are plain objects. An assignment under the key \<open>__proto__\<close> creates no
  entry: it reaches the setter inherited from \<open>Object.prototype\<close>, which ignores a number
  and ignores a string, and on \<open>null\<close> only clears the prototype of the table. So this key
  never holds a distance or a predecessor (\<open>store\<close>).

  A key without an entry reads as \<open>undefined\<close> or as a member inherited from
  \<open>Object.prototype\<close>. Added to a weight this gives NaN or a string that is no numeral, and
  every comparison with one of these is false, so an edge with an endpoint outside the
  distance table is never relaxed.
\<close>

definition store :: "(string \<rightharpoonup> 'a) \<Rightarrow> string \<Rightarrow> 'a \<Rightarrow> (string \<rightharpoonup> 'a)" where
  "store m k v = (if k = ''__proto__'' then m else m(k \<mapsto> v))"

definition relaxable :: "(string \<rightharpoonup> jsnum) \<Rightarrow> Edge \<Rightarrow> bool" where
  "relaxable d e =
     (case (d (efrom e), d (eto e)) of
        (Some a, Some b) \<Rightarrow> num_less (num_add a (weight e)) b
      | _ \<Rightarrow> False)"

type_synonym bf_state = "(string \<rightharpoonup> jsnum) \<times> (string \<rightharpoonup> string option) \<times> bool"

definition relax :: "bf_state \<Rightarrow> Edge \<Rightarrow> bf_state" where
  "relax st e =
     (case st of (d, p, changed) \<Rightarrow>
        (case (d (efrom e), d (eto e)) of
           (Some a, Some b) \<Rightarrow>
             if num_less (num_add a (weight e)) b
             then (store d (eto e) (num_add a (weight e)), store p (eto e) (Some (efrom e)), True)
             else (d, p, changed)
         | _ \<Rightarrow> (d, p, changed)))"

definition relax_pass :: "Edge list \<Rightarrow> (string \<rightharpoonup> jsnum) \<times> (string \<rightharpoonup> string option) \<Rightarrow> bf_state" where
  "relax_pass es dp = foldl relax (fst dp, snd dp, False) es"

fun relax_loop ::
  "nat \<Rightarrow> Edge list \<Rightarrow> (string \<rightharpoonup> jsnum) \<times> (string \<rightharpoonup> string option)
     \<Rightarrow> (string \<rightharpoonup> jsnum) \<times> (string \<rightharpoonup> string option)" where
  "relax_loop 0 es dp = dp"
| "relax_loop (Suc k) es dp =
     (case relax_pass es dp of (d, p, changed) \<Rightarrow>
        if changed then relax_loop k es (d, p) else (d, p))"

definition initTables ::
  "Node list \<Rightarrow> string \<Rightarrow> (string \<rightharpoonup> jsnum) \<times> (string \<rightharpoonup> string option)" where
  "initTables ns sourceId =
     (store (foldl (\<lambda>d n. store d (n_id n) Infinity) Map.empty ns) sourceId (Fin 0),
      foldl (\<lambda>p n. store p (n_id n) None) Map.empty ns)"

definition bellmanFord :: "Node list \<Rightarrow> Edge list \<Rightarrow> string \<Rightarrow> PathResult" where
  "bellmanFord ns es sourceId =
     (case relax_loop (length ns - 1) es (initTables ns sourceId) of (d, p) \<Rightarrow>
        \<lparr> distances = d, predecessors = p,
          hasNegativeCycle = list_ex (relaxable d) es \<rparr>)"

section \<open>Engine module: data\<close>

datatype EnemyType = E_basic | E_scout | E_tank | E_ghost

datatype TowerType = T_basic | T_sniper | T_slow | T_fast_shot | T_heavy_shot | T_area_damage

datatype GameStatus =
  build_phase | wave_countdown | playing | stage_transition | game_over | paused

record Enemy =
  e_id :: string
  e_type :: EnemyType
  hp :: real
  maxHp :: real
  e_speed :: real
  currentNodeId :: string
  nextNodeId :: "string option"
  e_x :: real
  e_y :: real
  progress :: real
  reward :: real

record Tower =
  t_id :: string
  t_nodeId :: string
  t_type :: TowerType
  damage :: real
  t_range :: real
  fireRate :: real
  lastFired :: real
  cost :: real
  tier :: int
  aoe :: "real option"

record Projectile =
  p_id :: string
  p_x :: real
  p_y :: real
  targetId :: string
  p_speed :: real
  p_damage :: real
  p_aoe :: "real option"

record RoadBlock =
  rb_nodeId :: string
  expiresAt :: real

record GameState =
  nodes :: "Node list"
  edges :: "Edge list"
  enemies :: "Enemy list"
  towers :: "Tower list"
  projectiles :: "Projectile list"
  roadBlocks :: "RoadBlock list"
  money :: real
  lives :: int
  wave :: int
  stage :: int
  maxWavesPerStage :: int
  status :: GameStatus
  timer :: real
  spawnTimer :: real
  enemiesToSpawn :: int
  startNodeId :: string
  endNodeId :: string

definition WAVES_PER_STAGE :: int where "WAVES_PER_STAGE = 5"

fun base_hp :: "EnemyType \<Rightarrow> real" where
  "base_hp E_scout = 30" | "base_hp E_basic = 60" | "base_hp E_tank = 200" | "base_hp E_ghost = 100"

fun base_speed :: "EnemyType \<Rightarrow> real" where
  "base_speed E_scout = 2.5" | "base_speed E_basic = 1.5"
| "base_speed E_tank = 0.8" | "base_speed E_ghost = 1.2"

fun base_reward :: "EnemyType \<Rightarrow> real" where
  "base_reward E_scout = 6" | "base_reward E_basic = 8"
| "base_reward E_tank = 18" | "base_reward E_ghost = 15"

section \<open>Engine module: initGameState, startNextWave\<close>

text \<open>
  Both functions call \<open>generateGraph\<close>, so both take the random source and both can end in
  its TypeError (\<open>None\<close>).
\<close>

definition initGameState :: "(nat \<Rightarrow> real) \<Rightarrow> GameState option" where
  "initGameState rnd =
     (case generateGraph rnd 1 of
        None \<Rightarrow> None
      | Some g \<Rightarrow>
          Some \<lparr> nodes = g_nodes g, edges = g_edges g, enemies = [], towers = [],
                 projectiles = [], roadBlocks = [], money = 800, lives = 20, wave = 0,
                 stage = 1, maxWavesPerStage = WAVES_PER_STAGE, status = build_phase,
                 timer = 10000, spawnTimer = 0, enemiesToSpawn = 0,
                 startNodeId = g_startNodeId g, endNodeId = g_endNodeId g \<rparr>)"

definition startNextWave :: "(nat \<Rightarrow> real) \<Rightarrow> GameState \<Rightarrow> GameState option" where
  "startNextWave rnd state =
     (if wave state \<ge> maxWavesPerStage state then
        (let nextStage = stage state + 1 in
         case generateGraph rnd nextStage of
           None \<Rightarrow> None
         | Some g \<Rightarrow>
             Some (state\<lparr> nodes := g_nodes g, edges := g_edges g,
                          startNodeId := g_startNodeId g, endNodeId := g_endNodeId g,
                          stage := nextStage, wave := 1, lives := 20, money := 800,
                          towers := [], enemies := [], projectiles := [], roadBlocks := [],
                          status := playing, enemiesToSpawn := 10 + nextStage * 2 \<rparr>))
      else
        Some (state\<lparr> wave := wave state + 1, status := playing,
                     enemiesToSpawn := 10 + (wave state + 1) * 2 \<rparr>))"

section \<open>Engine module: upgradeTower, placeTower, placeRoadBlock\<close>

fun findIndex :: "('a \<Rightarrow> bool) \<Rightarrow> 'a list \<Rightarrow> nat option" where
  "findIndex P [] = None"
| "findIndex P (x # xs) = (if P x then Some 0 else map_option Suc (findIndex P xs))"

text \<open>
  The tier-1 branch of \<open>upgradeTower\<close>. The declared parameter type allows three upgrade
  types; any other value falls through the chain and changes tier and cost only.
\<close>

definition upgradeTier1 :: "Tower \<Rightarrow> TowerType \<Rightarrow> Tower" where
  "upgradeTier1 tower upgradeType =
     (let u = tower\<lparr> tier := 2, cost := cost tower + 200 \<rparr> in
      if upgradeType = T_fast_shot then
        u\<lparr> t_type := T_fast_shot, fireRate := 300, damage := 8 \<rparr>
      else if upgradeType = T_heavy_shot then
        u\<lparr> t_type := T_heavy_shot, fireRate := 1500, damage := 50, t_range := 180 \<rparr>
      else if upgradeType = T_area_damage then
        u\<lparr> t_type := T_area_damage, aoe := Some 50, damage := 15, fireRate := 1200 \<rparr>
      else u)"

definition upgradeTier2 :: "Tower \<Rightarrow> Tower" where
  "upgradeTier2 tower =
     (let u = tower\<lparr> tier := 3, cost := cost tower + 400 \<rparr> in
      if t_type tower = T_fast_shot then
        u\<lparr> fireRate := 100, damage := 12 \<rparr>
      else if t_type tower = T_heavy_shot then
        u\<lparr> fireRate := 3000, damage := 250, t_range := 300 \<rparr>
      else if t_type tower = T_area_damage then
        u\<lparr> aoe := Some 100, damage := 40, fireRate := 2000 \<rparr>
      else u)"

definition upgradeTower :: "GameState \<Rightarrow> string \<Rightarrow> TowerType \<Rightarrow> GameState" where
  "upgradeTower state towerId upgradeType =
     (case findIndex (\<lambda>t. t_id t = towerId) (towers state) of
        None \<Rightarrow> state
      | Some towerIndex \<Rightarrow>
          if money state < 200 then state
          else
            (let tower = towers state ! towerIndex in
             if tier tower = 1 then
               (let upgradedTower = upgradeTier1 tower upgradeType;
                    cost = (if tier tower = 1 then 200 else 400)
                in if money state < cost then state
                   else state\<lparr> money := money state - cost,
                               towers := (towers state)[towerIndex := upgradedTower] \<rparr>)
             else if tier tower = 2 then
               (if money state < 400 then state
                else
                  (let upgradedTower = upgradeTier2 tower;
                       cost = (if tier tower = 1 then 200 else 400)
                   in if money state < cost then state
                      else state\<lparr> money := money state - cost,
                                  towers := (towers state)[towerIndex := upgradedTower] \<rparr>))
             else state))"

text \<open>
  \<open>newId\<close> is the string \<open>Math.random().toString(36).substr(2, 9)\<close> of the call, and
  \<open>nowMs\<close> the value of \<open>Date.now()\<close>.
\<close>

definition placeTower :: "string \<Rightarrow> GameState \<Rightarrow> string \<Rightarrow> GameState" where
  "placeTower newId state nodeId =
     (case find (\<lambda>n. n_id n = nodeId) (nodes state) of
        None \<Rightarrow> state
      | Some node \<Rightarrow>
          if isPath node \<or> money state < 100 then state
          else if find (\<lambda>t. t_nodeId t = nodeId) (towers state) \<noteq> None then state
          else
            (let newTower = \<lparr> t_id = newId, t_nodeId = nodeId, t_type = T_basic, damage = 10,
                              t_range = 120, fireRate = 800, lastFired = 0, cost = 100,
                              tier = 1, aoe = None \<rparr>
             in state\<lparr> money := money state - 100, towers := towers state @ [newTower] \<rparr>))"

definition placeRoadBlock :: "real \<Rightarrow> GameState \<Rightarrow> string \<Rightarrow> GameState" where
  "placeRoadBlock nowMs state nodeId =
     (case find (\<lambda>n. n_id n = nodeId) (nodes state) of
        None \<Rightarrow> state
      | Some node \<Rightarrow>
          if \<not> isPath node \<or> money state < 50 then state
          else if find (\<lambda>rb. rb_nodeId rb = nodeId) (roadBlocks state) \<noteq> None then state
          else
            (let newRoadBlock = \<lparr> rb_nodeId = nodeId, expiresAt = nowMs + 5000 \<rparr>
             in state\<lparr> money := money state - 50,
                         roadBlocks := roadBlocks state @ [newRoadBlock] \<rparr>))"

section \<open>Engine module: updateGame\<close>

text \<open>
  What one call of \<open>updateGame\<close> reads from outside: the two readings of \<open>Date.now()\<close>,
  the random number of the spawn roll, the identifier strings that
  \<open>Math.random().toString(36).substr(2, 9)\<close> yields for the spawned enemy and for the shot
  of the tower at each list position, and the random source of a map generation.
  The result \<open>None\<close> of a step is the TypeError of reading a property of \<open>undefined\<close>, after
  a \<open>find(...)!\<close> that found nothing.
\<close>

record TickEnv =
  nowMs :: real
  now :: real
  rand :: real
  spawnId :: string
  shotId :: "nat \<Rightarrow> string"
  mapRnd :: "nat \<Rightarrow> real"

subsection \<open>Dynamic weights\<close>

fun addPenalties :: "Node list \<Rightarrow> Node option \<Rightarrow> Tower list \<Rightarrow> real \<Rightarrow> real option" where
  "addPenalties ns toNode [] w = Some w"
| "addPenalties ns toNode (t # ts) w =
     (case (find (\<lambda>n. n_id n = t_nodeId t) ns, toNode) of
        (Some tNode, Some tn) \<Rightarrow>
          (let dist = sqrt ((n_x tNode - n_x tn)\<^sup>2 + (n_y tNode - n_y tn)\<^sup>2)
           in addPenalties ns toNode ts (if dist < 100 then w + 20 else w))
      | _ \<Rightarrow> None)"

definition dynamicEdge :: "Node list \<Rightarrow> RoadBlock list \<Rightarrow> Tower list \<Rightarrow> Edge \<Rightarrow> Edge option" where
  "dynamicEdge ns rbs ts e =
     (let toNode = find (\<lambda>n. n_id n = eto e) ns;
          isBlocked = list_ex (\<lambda>rb. rb_nodeId rb = eto e \<or> rb_nodeId rb = efrom e) rbs
      in if isBlocked then Some (e\<lparr> weight := 1000000 \<rparr>)
         else map_option (\<lambda>w. e\<lparr> weight := w \<rparr>) (addPenalties ns toNode ts (weight e)))"

definition dynamicEdges :: "GameState \<Rightarrow> Edge list option" where
  "dynamicEdges s = those (map (dynamicEdge (nodes s) (roadBlocks s) (towers s)) (edges s))"

subsection \<open>Spawn logic\<close>

definition chooseType :: "real \<Rightarrow> GameState \<Rightarrow> EnemyType" where
  "chooseType r s =
     (if stage s \<ge> 3 \<and> r < 0.15 then E_ghost
      else if wave s mod 5 = 0 \<and> r < 0.3 then E_tank
      else if r < 0.2 then E_scout
      else E_basic)"

definition spawn :: "TickEnv \<Rightarrow> real \<Rightarrow> GameState \<Rightarrow> GameState option" where
  "spawn env deltaTime s =
     (if enemiesToSpawn s > 0 then
        (let s1 = s\<lparr> spawnTimer := spawnTimer s + deltaTime \<rparr> in
         if spawnTimer s1 > 1000 then
           (let s2 = s1\<lparr> spawnTimer := 0, enemiesToSpawn := enemiesToSpawn s1 - 1 \<rparr> in
            case find (\<lambda>n. n_id n = startNodeId s2) (nodes s2) of
              None \<Rightarrow> None
            | Some startNode \<Rightarrow>
                (let type = chooseType (rand env) s2;
                     scaling = 1 + (real_of_int (stage s2) - 1) * 0.5
                                 + (real_of_int (wave s2) - 1) * 0.1
                 in Some (s2\<lparr> enemies := enemies s2 @
                     [\<lparr> e_id = spawnId env, e_type = type, hp = base_hp type * scaling,
                        maxHp = base_hp type * scaling, e_speed = base_speed type,
                        currentNodeId = startNodeId s2, nextNodeId = None,
                        e_x = n_x startNode, e_y = n_y startNode, progress = 0,
                        reward = base_reward type \<rparr>] \<rparr>)))
         else Some s1)
      else Some s)"

subsection \<open>Enemy movement\<close>

text \<open>
  The callback of \<open>enemies.filter\<close>. Its result is the enemy as mutated when the callback
  returns true and \<open>None\<close> when it returns false, together with the lives and status it
  leaves behind.
\<close>

definition keepAlive :: "Enemy \<Rightarrow> Enemy option" where
  "keepAlive e = (if hp e > 0 then Some e else None)"

definition noNextNode ::
  "string \<Rightarrow> int \<Rightarrow> GameStatus \<Rightarrow> Enemy \<Rightarrow> Enemy option \<times> int \<times> GameStatus" where
  "noNextNode endId lv st enemy =
     (if currentNodeId enemy = endId then
        (let lv' = lv - 1 in (None, lv', if lv' \<le> 0 then game_over else st))
      else (Some enemy, lv, st))"

definition advance ::
  "Node list \<Rightarrow> RoadBlock list \<Rightarrow> real \<Rightarrow> string \<Rightarrow> Enemy \<Rightarrow> Enemy option option" where
  "advance ns rbs deltaTime nxt enemy =
     (let isNextNodeBlocked = list_ex (\<lambda>rb. rb_nodeId rb = nxt) rbs;
          e1 = (if \<not> isNextNodeBlocked
                then enemy\<lparr> progress := progress enemy + (e_speed enemy * deltaTime) / 1000 \<rparr>
                else enemy);
          startNode = find (\<lambda>n. n_id n = currentNodeId e1) ns;
          endNode = find (\<lambda>n. n_id n = nxt) ns
      in if progress e1 \<ge> 1 then
           (case endNode of
              None \<Rightarrow> None
            | Some en \<Rightarrow>
                Some (keepAlive (e1\<lparr> progress := 0, currentNodeId := nxt,
                                     e_x := n_x en, e_y := n_y en \<rparr>)))
         else if \<not> isNextNodeBlocked then
           (case (startNode, endNode) of
              (Some sn, Some en) \<Rightarrow>
                Some (keepAlive (e1\<lparr> e_x := n_x sn + (n_x en - n_x sn) * progress e1,
                                     e_y := n_y sn + (n_y en - n_y sn) * progress e1 \<rparr>))
            | _ \<Rightarrow> None)
         else Some (keepAlive e1))"

definition moveEnemy ::
  "Node list \<Rightarrow> RoadBlock list \<Rightarrow> (string \<rightharpoonup> string option) \<Rightarrow> string \<Rightarrow> real
     \<Rightarrow> int \<Rightarrow> GameStatus \<Rightarrow> Enemy \<Rightarrow> (Enemy option \<times> int \<times> GameStatus) option" where
  "moveEnemy ns rbs preds endId deltaTime lv st enemy =
     (let next = (case preds (currentNodeId enemy) of None \<Rightarrow> None | Some v \<Rightarrow> v);
          e0 = enemy\<lparr> nextNodeId := next \<rparr>
      in case next of
           None \<Rightarrow> Some (noNextNode endId lv st e0)
         | Some nxt \<Rightarrow>
             if nxt = [] then Some (noNextNode endId lv st e0)
             else map_option (\<lambda>r. (r, lv, st)) (advance ns rbs deltaTime nxt e0))"

fun moveEnemies ::
  "Node list \<Rightarrow> RoadBlock list \<Rightarrow> (string \<rightharpoonup> string option) \<Rightarrow> string \<Rightarrow> real
     \<Rightarrow> int \<Rightarrow> GameStatus \<Rightarrow> Enemy list \<Rightarrow> (Enemy list \<times> int \<times> GameStatus) option" where
  "moveEnemies ns rbs preds endId deltaTime lv st [] = Some ([], lv, st)"
| "moveEnemies ns rbs preds endId deltaTime lv st (e # es) =
     (case moveEnemy ns rbs preds endId deltaTime lv st e of
        None \<Rightarrow> None
      | Some (r, lv', st') \<Rightarrow>
          (case moveEnemies ns rbs preds endId deltaTime lv' st' es of
             None \<Rightarrow> None
           | Some (kept, lv'', st'') \<Rightarrow>
               Some ((case r of None \<Rightarrow> kept | Some e' \<Rightarrow> e' # kept), lv'', st'')))"

subsection \<open>Projectiles\<close>

text \<open>The \<open>forEach\<close> of an area hit: every enemy in the radius is damaged in list order.\<close>

fun aoeHit :: "Projectile \<Rightarrow> real \<Rightarrow> Enemy list \<Rightarrow> real \<Rightarrow> Enemy list \<times> real" where
  "aoeHit p r [] m = ([], m)"
| "aoeHit p r (e # es) m =
     (let edx = e_x e - p_x p;
          edy = e_y e - p_y p;
          edist = sqrt (edx * edx + edy * edy)
      in if edist \<le> r then
           (let e' = e\<lparr> hp := hp e - p_damage p \<rparr>;
                m' = (if hp e' \<le> 0 \<and> hp e' + p_damage p > 0 then m + reward e' else m)
            in case aoeHit p r es m' of (es', m'') \<Rightarrow> (e' # es', m''))
         else (case aoeHit p r es m of (es', m'') \<Rightarrow> (e # es', m'')))"

text \<open>\<open>target.hp -= p.damage\<close> on the object that \<open>find\<close> returned: the first enemy with the id.\<close>

fun hitTarget :: "string \<Rightarrow> real \<Rightarrow> Enemy list \<Rightarrow> Enemy list" where
  "hitTarget tid dmg [] = []"
| "hitTarget tid dmg (e # es) =
     (if e_id e = tid then e\<lparr> hp := hp e - dmg \<rparr> # es else e # hitTarget tid dmg es)"

definition singleHit :: "Projectile \<Rightarrow> Enemy \<Rightarrow> Enemy list \<Rightarrow> real \<Rightarrow> Enemy list \<times> real" where
  "singleHit p target es m =
     (hitTarget (targetId p) (p_damage p) es,
      if hp target - p_damage p \<le> 0 then m + reward target else m)"

definition stepProjectile ::
  "real \<Rightarrow> Enemy list \<Rightarrow> real \<Rightarrow> Projectile \<Rightarrow> Projectile option \<times> Enemy list \<times> real" where
  "stepProjectile deltaTime es m p =
     (case find (\<lambda>e. e_id e = targetId p) es of
        None \<Rightarrow> (None, es, m)
      | Some target \<Rightarrow>
          (let dx = e_x target - p_x p;
               dy = e_y target - p_y p;
               dist = sqrt (dx * dx + dy * dy)
           in if dist < 5 then
                (case p_aoe p of
                   None \<Rightarrow> (case singleHit p target es m of (es', m') \<Rightarrow> (None, es', m'))
                 | Some r \<Rightarrow>
                     if r \<noteq> 0 then (case aoeHit p r es m of (es', m') \<Rightarrow> (None, es', m'))
                     else (case singleHit p target es m of (es', m') \<Rightarrow> (None, es', m')))
              else
                (let move = (p_speed p * deltaTime) / 1000
                 in (Some (p\<lparr> p_x := p_x p + (dx / dist) * move,
                              p_y := p_y p + (dy / dist) * move \<rparr>), es, m))))"

fun moveProjectiles ::
  "real \<Rightarrow> Enemy list \<Rightarrow> real \<Rightarrow> Projectile list \<Rightarrow> Projectile list \<times> Enemy list \<times> real" where
  "moveProjectiles deltaTime es m [] = ([], es, m)"
| "moveProjectiles deltaTime es m (p # ps) =
     (case stepProjectile deltaTime es m p of (r, es', m') \<Rightarrow>
        (case moveProjectiles deltaTime es' m' ps of (kept, es'', m'') \<Rightarrow>
           ((case r of None \<Rightarrow> kept | Some p' \<Rightarrow> p' # kept), es'', m'')))"

subsection \<open>Towers shooting\<close>

definition inRange :: "Node \<Rightarrow> Tower \<Rightarrow> Enemy \<Rightarrow> bool" where
  "inRange towerNode tower e =
     (sqrt ((e_x e - n_x towerNode)\<^sup>2 + (e_y e - n_y towerNode)\<^sup>2) \<le> t_range tower)"

text \<open>
  The loop over the towers, \<open>k\<close> the position of the tower in the list. The search callback
  reads \<open>towerNode.x\<close>, so a tower on an unknown node throws as soon as there is an enemy
  to test.
\<close>

fun fireTowers ::
  "TickEnv \<Rightarrow> Node list \<Rightarrow> Enemy list \<Rightarrow> nat \<Rightarrow> Tower list
     \<Rightarrow> (Tower list \<times> Projectile list) option" where
  "fireTowers env ns es k [] = Some ([], [])"
| "fireTowers env ns es k (t # ts) =
     (case fireTowers env ns es (Suc k) ts of
        None \<Rightarrow> None
      | Some (ts', shots) \<Rightarrow>
          if now env - lastFired t > fireRate t then
            (case find (\<lambda>n. n_id n = t_nodeId t) ns of
               None \<Rightarrow> if es = [] then Some (t # ts', shots) else None
             | Some towerNode \<Rightarrow>
                 (case find (inRange towerNode t) es of
                    None \<Rightarrow> Some (t # ts', shots)
                  | Some target \<Rightarrow>
                      Some (t\<lparr> lastFired := now env \<rparr> # ts',
                            \<lparr> p_id = shotId env k, p_x = n_x towerNode, p_y = n_y towerNode,
                              targetId = e_id target, p_speed = 300, p_damage = damage t,
                              p_aoe = aoe t \<rparr> # shots)))
          else Some (t # ts', shots))"

subsection \<open>Wave completion and the whole tick\<close>

definition waveCompletion :: "GameState \<Rightarrow> GameState" where
  "waveCompletion s =
     (if enemies s = [] \<and> enemiesToSpawn s = 0 \<and> status s = playing then
        (if wave s \<ge> maxWavesPerStage s
         then s\<lparr> status := stage_transition, timer := 10000 \<rparr>
         else s\<lparr> status := wave_countdown, timer := 5000 \<rparr>)
      else s)"

definition simulate :: "TickEnv \<Rightarrow> GameState \<Rightarrow> real \<Rightarrow> GameState option" where
  "simulate env state deltaTime =
     (let s1 = state\<lparr> roadBlocks := filter (\<lambda>rb. expiresAt rb > nowMs env) (roadBlocks state) \<rparr>
      in case dynamicEdges s1 of
           None \<Rightarrow> None
         | Some dyn \<Rightarrow>
             (case spawn env deltaTime s1 of
                None \<Rightarrow> None
              | Some s2 \<Rightarrow>
                  (let reversedEdges = map (\<lambda>e. e\<lparr> efrom := eto e, eto := efrom e \<rparr>) dyn;
                       toEnd = bellmanFord (nodes s2) reversedEdges (endNodeId s2)
                   in case moveEnemies (nodes s2) (roadBlocks s2) (predecessors toEnd)
                             (endNodeId s2) deltaTime (lives s2) (status s2) (enemies s2) of
                        None \<Rightarrow> None
                      | Some (es3, lv3, st3) \<Rightarrow>
                          (case moveProjectiles deltaTime es3 (money s2) (projectiles s2) of
                             (ps4, es4, m4) \<Rightarrow>
                               (case fireTowers env (nodes s2) es4 0 (towers s2) of
                                  None \<Rightarrow> None
                                | Some (ts5, shots) \<Rightarrow>
                                    Some (waveCompletion
                                      (s2\<lparr> enemies := es4, lives := lv3, status := st3,
                                           projectiles := ps4 @ shots, money := m4,
                                           towers := ts5 \<rparr>)))))))"

definition updateGame :: "TickEnv \<Rightarrow> GameState \<Rightarrow> real \<Rightarrow> GameState option" where
  "updateGame env state deltaTime =
     (if status state = build_phase \<or> status state = stage_transition
         \<or> status state = wave_countdown then
        (let newState = state\<lparr> timer := timer state - deltaTime \<rparr> in
         if timer newState \<le> 0 then startNextWave (mapRnd env) newState else Some newState)
      else if status state = game_over then Some state
      else simulate env state deltaTime)"

text \<open>
  The frame callback of \<open>App.tsx\<close>, which is the only caller of \<open>updateGame\<close>:
  \<open>if (prev.status === 'paused') return prev; return updateGame(prev, deltaTime)\<close>.
\<close>

definition animate :: "TickEnv \<Rightarrow> GameState \<Rightarrow> real \<Rightarrow> GameState option" where
  "animate env prev deltaTime =
     (if status prev = paused then Some prev else updateGame env prev deltaTime)"

section \<open>Notions of the specification and example inputs\<close>

text \<open>The node and the tower that a command's \<open>find\<close> selects for an identifier.\<close>

definition nodeOf :: "GameState \<Rightarrow> string \<Rightarrow> Node option" where
  "nodeOf s nodeId = find (\<lambda>n. n_id n = nodeId) (nodes s)"

definition towerOf :: "GameState \<Rightarrow> string \<Rightarrow> Tower option" where
  "towerOf s towerId = find (\<lambda>t. t_id t = towerId) (towers s)"

text \<open>A four-node map: two walkable nodes joined by a road, and two building plots.\<close>

definition demoNodes :: "Node list" where
  "demoNodes =
     [ \<lparr> n_id = ''node_0_0'', n_x = 40, n_y = 40, isPath = True, n_towerId = None \<rparr>,
       \<lparr> n_id = ''node_1_0'', n_x = 100, n_y = 40, isPath = True, n_towerId = None \<rparr>,
       \<lparr> n_id = ''node_0_1'', n_x = 40, n_y = 100, isPath = False, n_towerId = None \<rparr>,
       \<lparr> n_id = ''node_1_1'', n_x = 100, n_y = 100, isPath = False, n_towerId = None \<rparr> ]"

definition demoEdges :: "Edge list" where
  "demoEdges =
     [ \<lparr> efrom = ''node_0_0'', eto = ''node_1_0'', weight = 10, isWarp = False \<rparr>,
       \<lparr> efrom = ''node_1_0'', eto = ''node_0_0'', weight = 10, isWarp = False \<rparr> ]"

definition demoState :: GameState where
  "demoState =
     \<lparr> nodes = demoNodes, edges = demoEdges, enemies = [], towers = [], projectiles = [],
       roadBlocks = [], money = 800, lives = 20, wave = 1, stage = 1,
       maxWavesPerStage = 5, status = playing, timer = 0, spawnTimer = 0,
       enemiesToSpawn = 3, startNodeId = ''node_0_0'', endNodeId = ''node_1_0'' \<rparr>"

definition demoEnv :: TickEnv where
  "demoEnv = \<lparr> nowMs = 1000, now = 1000, rand = 0.5, spawnId = ''e1'',
               shotId = (\<lambda>k. ''p'' @ show_nat k), mapRnd = (\<lambda>i. 0) \<rparr>"



text \<open>
  A scene on the demo map: one enemy with 10 hit points and reward \<open>r\<close> leaving the start
  node, the projectiles \<open>ps\<close> in flight, and the player holding \<open>m\<close>. \<open>movedEnemy\<close> is the
  enemy after 16 ms of movement, \<open>demoShot\<close> a single-target projectile of damage 10 at the
  point the enemy has reached by then, and \<open>sceneAfter\<close> the shape of the state one tick
  later.
\<close>

definition demoEnemy :: "real \<Rightarrow> Enemy" where
  "demoEnemy r = \<lparr> e_id = ''e0'', e_type = E_basic, hp = 10, maxHp = 60, e_speed = 1.5,
                   currentNodeId = ''node_0_0'', nextNodeId = None, e_x = 40, e_y = 40,
                   progress = 0, reward = r \<rparr>"

definition movedEnemy :: "real \<Rightarrow> Enemy" where
  "movedEnemy r = (demoEnemy r)\<lparr> nextNodeId := Some ''node_1_0'', progress := 0.024,
                                  e_x := 41.44 \<rparr>"

definition demoShot :: "string \<Rightarrow> Projectile" where
  "demoShot i = \<lparr> p_id = i, p_x = 41.44, p_y = 40, targetId = ''e0'', p_speed = 300,
                  p_damage = 10, p_aoe = None \<rparr>"

definition scene :: "GameStatus \<Rightarrow> real \<Rightarrow> real \<Rightarrow> Projectile list \<Rightarrow> GameState" where
  "scene st m r ps = demoState\<lparr> status := st, money := m, enemies := [demoEnemy r],
                        projectiles := ps \<rparr>"

definition sceneAfter :: "GameStatus \<Rightarrow> real \<Rightarrow> Enemy list \<Rightarrow> Projectile list \<Rightarrow> GameState" where
  "sceneAfter st m es ps = demoState\<lparr> status := st, money := m, spawnTimer := 16,
                              enemies := es, projectiles := ps \<rparr>"

text \<open>
  The invariant that carries the money claim through a tick: no enemy has a negative reward.
\<close>

definition rewards_ok :: "GameState \<Rightarrow> bool" where
  "rewards_ok s = (\<forall>e \<in> set (enemies s). 0 \<le> reward e)"

text \<open>The pause button of \<open>App.tsx\<close>: an inline update of the status.\<close>

definition togglePause :: "GameState \<Rightarrow> GameState" where
  "togglePause prev = prev\<lparr> status := (if status prev = paused then playing else paused) \<rparr>"

text \<open>The states of a match: from \<open>initGameState\<close>, by ticks and commands in any order.\<close>

inductive reachable :: "GameState \<Rightarrow> bool" where
  r_init: "initGameState rnd = Some s \<Longrightarrow> reachable s"
| r_tick: "reachable s \<Longrightarrow> updateGame env s deltaTime = Some s' \<Longrightarrow> reachable s'"
| r_tower: "reachable s \<Longrightarrow> reachable (placeTower newId s nodeId)"
| r_block: "reachable s \<Longrightarrow> reachable (placeRoadBlock t s nodeId)"
| r_upgrade: "reachable s \<Longrightarrow> reachable (upgradeTower s towerId upgradeType)"
| r_wave: "reachable s \<Longrightarrow> startNextWave rnd s = Some s' \<Longrightarrow> reachable s'"
| r_pause: "reachable s \<Longrightarrow> reachable (togglePause s)"

text \<open>
  A walk in a graph given by its edge list: \<open>walk es u p v\<close> holds when the edges \<open>p\<close>, all
  taken from \<open>es\<close>, lead from \<open>u\<close> to \<open>v\<close>, each starting where the one before ends.
\<close>

fun walk :: "Edge list \<Rightarrow> string \<Rightarrow> Edge list \<Rightarrow> string \<Rightarrow> bool" where
  "walk es u [] v = (u = v)"
| "walk es u (e # p) v = (e \<in> set es \<and> efrom e = u \<and> walk es (eto e) p v)"

text \<open>The contract of \<open>Math.random()\<close>: every value lies in \<open>[0, 1)\<close>.\<close>

definition valid_rnd :: "(nat \<Rightarrow> real) \<Rightarrow> bool" where
  "valid_rnd rnd = (\<forall>i. 0 \<le> rnd i \<and> rnd i < 1)"

text \<open>
  A corridor in a set of node names: from cell \<open>(x, y)\<close> one can reach cell \<open>(9, 9)\<close> through
  cells of the set, each step going one cell right or one cell down.
\<close>

inductive corridor :: "string set \<Rightarrow> nat \<Rightarrow> nat \<Rightarrow> bool" for S where
  c_goal: "node_name 9 9 \<in> S \<Longrightarrow> corridor S 9 9"
| c_right: "node_name (int x) (int y) \<in> S \<Longrightarrow> x < 9 \<Longrightarrow> y \<le> 9
            \<Longrightarrow> corridor S (Suc x) y \<Longrightarrow> corridor S x y"
| c_down: "node_name (int x) (int y) \<in> S \<Longrightarrow> y < 9 \<Longrightarrow> x \<le> 9
            \<Longrightarrow> corridor S x (Suc y) \<Longrightarrow> corridor S x y"

text \<open>The adjacency edge that \<open>generateGraph\<close> pushes between two cells.\<close>

definition adjEdge :: "nat \<Rightarrow> nat \<Rightarrow> nat \<Rightarrow> nat \<Rightarrow> Edge" where
  "adjEdge x y x' y' = \<lparr> efrom = node_name (int x) (int y), eto = node_name (int x') (int y'),
                          weight = 10, isWarp = False \<rparr>"

text \<open>The total weight of a walk, in ideal arithmetic.\<close>

definition wsum :: "Edge list \<Rightarrow> real" where
  "wsum p = sum_list (map weight p)"

text \<open>
  The relaxation of \<open>bellmanFord\<close> once more, over ideal numbers: a real that no sum
  rounds, or \<open>Unreached\<close> for a node still at Infinity. The properties of a run are proved
  of this version, and carried to \<open>bellmanFord\<close> for the inputs on which no sum rounds.
\<close>

datatype ideal = Val real | Unreached

fun ideal_add :: "ideal \<Rightarrow> real \<Rightarrow> ideal" where
  "ideal_add (Val a) w = Val (a + w)"
| "ideal_add Unreached w = Unreached"

fun ideal_less :: "ideal \<Rightarrow> ideal \<Rightarrow> bool" where
  "ideal_less (Val a) (Val b) = (a < b)"
| "ideal_less (Val a) Unreached = True"
| "ideal_less Unreached b = False"

definition ideal_le :: "ideal \<Rightarrow> ideal \<Rightarrow> bool" where
  "ideal_le a b = (\<not> ideal_less b a)"

definition relaxable_ideal :: "(string \<rightharpoonup> ideal) \<Rightarrow> Edge \<Rightarrow> bool" where
  "relaxable_ideal d e =
     (case (d (efrom e), d (eto e)) of
        (Some a, Some b) \<Rightarrow> ideal_less (ideal_add a (weight e)) b
      | _ \<Rightarrow> False)"

type_synonym ideal_state = "(string \<rightharpoonup> ideal) \<times> (string \<rightharpoonup> string option) \<times> bool"

definition relax_ideal :: "ideal_state \<Rightarrow> Edge \<Rightarrow> ideal_state" where
  "relax_ideal st e =
     (case st of (d, p, changed) \<Rightarrow>
        (case (d (efrom e), d (eto e)) of
           (Some a, Some b) \<Rightarrow>
             if ideal_less (ideal_add a (weight e)) b
             then (d(eto e \<mapsto> ideal_add a (weight e)), p(eto e \<mapsto> Some (efrom e)), True)
             else (d, p, changed)
         | _ \<Rightarrow> (d, p, changed)))"

definition relax_pass_ideal ::
  "Edge list \<Rightarrow> (string \<rightharpoonup> ideal) \<times> (string \<rightharpoonup> string option) \<Rightarrow> ideal_state" where
  "relax_pass_ideal es dp = foldl relax_ideal (fst dp, snd dp, False) es"

fun relax_loop_ideal ::
  "nat \<Rightarrow> Edge list \<Rightarrow> (string \<rightharpoonup> ideal) \<times> (string \<rightharpoonup> string option)
     \<Rightarrow> (string \<rightharpoonup> ideal) \<times> (string \<rightharpoonup> string option)" where
  "relax_loop_ideal 0 es dp = dp"
| "relax_loop_ideal (Suc k) es dp =
     (case relax_pass_ideal es dp of (d, p, changed) \<Rightarrow>
        if changed then relax_loop_ideal k es (d, p) else (d, p))"

definition initTables_ideal ::
  "Node list \<Rightarrow> string \<Rightarrow> (string \<rightharpoonup> ideal) \<times> (string \<rightharpoonup> string option)" where
  "initTables_ideal ns s =
     ((\<lambda>v. if v = ''__proto__'' then None
           else if v = s then Some (Val 0)
           else if v \<in> n_id ` set ns then Some Unreached else None),
      (\<lambda>v. if v \<noteq> ''__proto__'' \<and> v \<in> n_id ` set ns then Some None else None))"

text \<open>An ideal number as a stored distance, and a table of them as a distance table.\<close>

fun emb :: "ideal \<Rightarrow> jsnum" where
  "emb (Val x) = Fin x"
| "emb Unreached = Infinity"

definition lift :: "(string \<rightharpoonup> ideal) \<Rightarrow> (string \<rightharpoonup> jsnum)" where
  "lift d = (\<lambda>v. map_option emb (d v))"

text \<open>
  The edges of an edge list that join two nodes of a node set: the graph that
  \<open>bellmanFord\<close> works on, since it never relaxes an edge with an endpoint outside its
  distance table.
\<close>

definition inGraph :: "string set \<Rightarrow> Edge list \<Rightarrow> Edge list" where
  "inGraph V es = filter (\<lambda>e. efrom e \<in> V \<and> eto e \<in> V) es"

text \<open>One table is below another: same keys, no entry larger.\<close>

definition dle :: "(string \<rightharpoonup> ideal) \<Rightarrow> (string \<rightharpoonup> ideal) \<Rightarrow> bool" where
  "dle d' d = (dom d' = dom d \<and> (\<forall>v a b. d' v = Some a \<longrightarrow> d v = Some b \<longrightarrow> ideal_le a b))"

text \<open>
  Three properties of a distance table, for source \<open>s\<close>: every finite entry is the weight
  of some walk from the source (\<open>sound\<close>); no entry is above the weight of a walk of at
  most \<open>k\<close> edges (\<open>bound\<close>); no edge can be relaxed any more (\<open>settled\<close>).
\<close>

definition sound :: "Edge list \<Rightarrow> string \<Rightarrow> (string \<rightharpoonup> ideal) \<Rightarrow> bool" where
  "sound G s d = (\<forall>v x. d v = Some (Val x) \<longrightarrow> (\<exists>p. walk G s p v \<and> wsum p = x))"

definition bound :: "Edge list \<Rightarrow> string \<Rightarrow> nat \<Rightarrow> (string \<rightharpoonup> ideal) \<Rightarrow> bool" where
  "bound G s k d =
     (\<forall>p v. walk G s p v \<longrightarrow> length p \<le> k \<longrightarrow> (\<exists>x. d v = Some (Val x) \<and> x \<le> wsum p))"

definition settled :: "Edge list \<Rightarrow> (string \<rightharpoonup> ideal) \<Rightarrow> bool" where
  "settled es d = (\<forall>e \<in> set es. \<not> relaxable_ideal d e)"



text \<open>
  When no sum of a run rounds. The finite entries of a table are integers between \<open>- L\<close>
  and \<open>W\<close> times the number of finite entries but one (\<open>run_inv\<close>); the weights are
  integers of magnitude at most \<open>W\<close>, no walk from the source weighs less than \<open>- L\<close>, the
  table has at most \<open>n + 1\<close> keys, none of them \<open>__proto__\<close>, and \<open>L + W * (n + 1)\<close> is at
  most \<open>2 ^ 53\<close> (\<open>exact_setting\<close>). Every integer up to \<open>2 ^ 53\<close> is a double.
\<close>

definition fin_keys :: "(string \<rightharpoonup> ideal) \<Rightarrow> string set" where
  "fin_keys d = {v. \<exists>x. d v = Some (Val x)}"

definition run_inv :: "string set \<Rightarrow> Edge list \<Rightarrow> string \<Rightarrow> real \<Rightarrow> (string \<rightharpoonup> ideal) \<Rightarrow> bool" where
  "run_inv V es s W d =
     (dom d = V \<and> sound (inGraph V es) s d
      \<and> (\<forall>v x. d v = Some (Val x) \<longrightarrow> x \<in> \<int> \<and> x \<le> W * (real (card (fin_keys d)) - 1)))"

definition exact_setting :: "string set \<Rightarrow> Edge list \<Rightarrow> string \<Rightarrow> real \<Rightarrow> real \<Rightarrow> nat \<Rightarrow> bool" where
  "exact_setting V es s W L n =
     (finite V \<and> card V \<le> Suc n \<and> ''__proto__'' \<notin> V \<and> 0 \<le> W \<and> 0 \<le> L
      \<and> (\<forall>e \<in> set es. weight e \<in> \<int> \<and> \<bar>weight e\<bar> \<le> W)
      \<and> (\<forall>p v. walk (inGraph V es) s p v \<longrightarrow> - L \<le> wsum p)
      \<and> L + W * (real n + 1) \<le> 2 ^ 53)"






text \<open>
  Grid cells and their names; the two kinds of edge a generated graph has, for a warp from
  cell \<open>f\<close> to cell \<open>t\<close>; and a potential on the cells that no edge of either kind
  undercuts.
\<close>

definition manhattan :: "nat \<times> nat \<Rightarrow> nat \<times> nat \<Rightarrow> real" where
  "manhattan a b = \<bar>real (fst a) - real (fst b)\<bar> + \<bar>real (snd a) - real (snd b)\<bar>"

definition potential :: "nat \<times> nat \<Rightarrow> nat \<times> nat \<Rightarrow> nat \<times> nat \<Rightarrow> real" where
  "potential f t c = min (10 * manhattan c f) (10 * manhattan c t - 15)"

definition cell_name :: "nat \<times> nat \<Rightarrow> string" where
  "cell_name c = node_name (int (fst c)) (int (snd c))"

definition in_grid :: "nat \<times> nat \<Rightarrow> bool" where
  "in_grid c = (fst c < GRID_SIZE \<and> snd c < GRID_SIZE)"

definition grid_edge :: "nat \<times> nat \<Rightarrow> nat \<times> nat \<Rightarrow> Edge \<Rightarrow> bool" where
  "grid_edge f t e =
     ((\<exists>a b. in_grid a \<and> in_grid b \<and> manhattan a b = 1
           \<and> e = \<lparr> efrom = cell_name a, eto = cell_name b, weight = 10, isWarp = False \<rparr>)
      \<or> e = \<lparr> efrom = cell_name f, eto = cell_name t, weight = - 15, isWarp = True \<rparr>)"

section \<open>Verified properties\<close>

subsection \<open>Rejected commands\<close>

lemma findIndex_find: "findIndex P xs = None \<longleftrightarrow> find P xs = None"
  by (induction xs) auto

lemma findIndex_nth: "findIndex P xs = Some i \<Longrightarrow> find P xs = Some (xs ! i)"
  by (induction xs arbitrary: i) (auto split: if_splits)

lemma find_NoneD: "find P xs = None \<Longrightarrow> x \<in> set xs \<Longrightarrow> \<not> P x"
  by (simp add: find_None_iff)

text \<open>
  Claim C9. A command whose precondition fails returns its input state: \<open>placeTower\<close> on an
  unknown node, a walkable node, a node that already hosts a tower, or with money below 100;
  \<open>placeRoadBlock\<close> on an unknown node, a non-walkable node, a node that already has a block,
  or with money below 50; \<open>upgradeTower\<close> on an unknown tower, a tier-3 tower, or with money
  below the cost of the next tier (200 from tier 1, 400 from tier 2).
\<close>

theorem commands_reject_unchanged:
  "(nodeOf s nodeId = None \<or> (\<exists>n. nodeOf s nodeId = Some n \<and> isPath n)
      \<or> (\<exists>t \<in> set (towers s). t_nodeId t = nodeId) \<or> money s < 100
     \<longrightarrow> placeTower newId s nodeId = s)
   \<and> (nodeOf s roadId = None \<or> (\<exists>n. nodeOf s roadId = Some n \<and> \<not> isPath n)
      \<or> (\<exists>rb \<in> set (roadBlocks s). rb_nodeId rb = roadId) \<or> money s < 50
     \<longrightarrow> placeRoadBlock t s roadId = s)
   \<and> (towerOf s towerId = None
      \<or> (\<exists>tw. towerOf s towerId = Some tw
            \<and> (tier tw = 3 \<or> (tier tw = 1 \<and> money s < 200) \<or> (tier tw = 2 \<and> money s < 400)))
     \<longrightarrow> upgradeTower s towerId upgradeType = s)"
proof (intro conjI impI)
  assume "nodeOf s nodeId = None \<or> (\<exists>n. nodeOf s nodeId = Some n \<and> isPath n)
      \<or> (\<exists>t \<in> set (towers s). t_nodeId t = nodeId) \<or> money s < 100"
  then show "placeTower newId s nodeId = s"
    by (auto simp: placeTower_def nodeOf_def split: option.splits dest: find_NoneD)
next
  assume "nodeOf s roadId = None \<or> (\<exists>n. nodeOf s roadId = Some n \<and> \<not> isPath n)
      \<or> (\<exists>rb \<in> set (roadBlocks s). rb_nodeId rb = roadId) \<or> money s < 50"
  then show "placeRoadBlock t s roadId = s"
    by (auto simp: placeRoadBlock_def nodeOf_def split: option.splits dest: find_NoneD)
next
  assume "towerOf s towerId = None
      \<or> (\<exists>tw. towerOf s towerId = Some tw
            \<and> (tier tw = 3 \<or> (tier tw = 1 \<and> money s < 200) \<or> (tier tw = 2 \<and> money s < 400)))"
  then show "upgradeTower s towerId upgradeType = s"
    by (auto simp: upgradeTower_def towerOf_def findIndex_find Let_def
          dest!: findIndex_nth split: option.splits)
qed

theorem commands_reject_unchanged_witness:
  "placeTower ''t1'' demoState ''node_0_0'' = demoState
   \<and> placeRoadBlock 1000 demoState ''node_0_1'' = demoState
   \<and> upgradeTower demoState ''t1'' T_fast_shot = demoState"
  using commands_reject_unchanged
    [of demoState "''node_0_0''" "''t1''" "''node_0_1''" 1000 "''t1''" T_fast_shot]
  by (simp add: nodeOf_def towerOf_def demoState_def demoNodes_def)

subsection \<open>Successful placements\<close>

text \<open>
  Claim C10. A \<open>placeTower\<close> that changes the state lowers money by 100, appends one tier-1
  tower on the chosen node and leaves the other fifteen fields as they were; a
  \<open>placeRoadBlock\<close> that changes the state lowers money by 50, appends one block on the
  chosen node and leaves the other fifteen fields as they were.
\<close>

theorem successful_placement_frame:
  "(placeTower newId s nodeId \<noteq> s \<longrightarrow>
      (let s' = placeTower newId s nodeId in
       money s' = money s - 100
       \<and> (\<exists>tw. towers s' = towers s @ [tw] \<and> tier tw = 1 \<and> t_nodeId tw = nodeId)
       \<and> nodes s' = nodes s \<and> edges s' = edges s \<and> enemies s' = enemies s
       \<and> projectiles s' = projectiles s \<and> roadBlocks s' = roadBlocks s
       \<and> lives s' = lives s \<and> wave s' = wave s \<and> stage s' = stage s
       \<and> maxWavesPerStage s' = maxWavesPerStage s \<and> status s' = status s
       \<and> timer s' = timer s \<and> spawnTimer s' = spawnTimer s
       \<and> enemiesToSpawn s' = enemiesToSpawn s \<and> startNodeId s' = startNodeId s
       \<and> endNodeId s' = endNodeId s))
   \<and> (placeRoadBlock t s roadId \<noteq> s \<longrightarrow>
      (let s' = placeRoadBlock t s roadId in
       money s' = money s - 50
       \<and> (\<exists>rb. roadBlocks s' = roadBlocks s @ [rb] \<and> rb_nodeId rb = roadId)
       \<and> nodes s' = nodes s \<and> edges s' = edges s \<and> enemies s' = enemies s
       \<and> towers s' = towers s \<and> projectiles s' = projectiles s
       \<and> lives s' = lives s \<and> wave s' = wave s \<and> stage s' = stage s
       \<and> maxWavesPerStage s' = maxWavesPerStage s \<and> status s' = status s
       \<and> timer s' = timer s \<and> spawnTimer s' = spawnTimer s
       \<and> enemiesToSpawn s' = enemiesToSpawn s \<and> startNodeId s' = startNodeId s
       \<and> endNodeId s' = endNodeId s))"
  by (simp add: placeTower_def placeRoadBlock_def Let_def split: option.splits)

theorem successful_placement_frame_witness:
  "money (placeTower ''t1'' demoState ''node_0_1'') = 700
   \<and> length (towers (placeTower ''t1'' demoState ''node_0_1'')) = 1
   \<and> money (placeRoadBlock 1000 demoState ''node_0_0'') = 750
   \<and> length (roadBlocks (placeRoadBlock 1000 demoState ''node_0_0'')) = 1"
  using successful_placement_frame [of "''t1''" demoState "''node_0_1''" 1000 "''node_0_0''"]
  by (auto simp: placeTower_def placeRoadBlock_def demoState_def demoNodes_def Let_def)

subsection \<open>The finished match\<close>




subsection \<open>Sums that do not round\<close>

lemma round_half_even_int [simp]: "round_half_even (of_int j) = j"
  by (simp add: round_half_even_def)

lemma pow2_pos: "0 < pow2 k"
  by (simp add: pow2_def)

lemma floor_log2:
  fixes x :: real
  assumes "2 ^ n \<le> x" "x < 2 ^ Suc n"
  shows "\<lfloor>log 2 x\<rfloor> = int n"
proof -
  have "0 < x" using assms(1) by (smt (verit) zero_less_power)
  then show ?thesis
    using assms by (simp add: floor_log_eq_powr_iff powr_realpow powr_add)
qed

lemma to_double_eval:
  assumes "x \<noteq> 0" "2 ^ n \<le> \<bar>x\<bar>" "\<bar>x\<bar> < 2 ^ Suc n" "n \<le> 1023"
    and "round_half_even (x / pow2 (int n - 52)) = j"
    and "\<bar>of_int j * pow2 (int n - 52)\<bar> < 2 ^ 1024"
  shows "to_double x = Fin (of_int j * pow2 (int n - 52))"
proof -
  have e: "\<lfloor>log 2 \<bar>x\<bar>\<rfloor> = int n" by (rule floor_log2 [OF assms(2,3)])
  show ?thesis
    using assms(1,5,6) by (simp add: to_double_def e Let_def)
qed

lemma to_double_exact:
  assumes "x \<noteq> 0" "2 ^ n \<le> \<bar>x\<bar>" "\<bar>x\<bar> < 2 ^ Suc n" "n \<le> 1023"
    and "x / pow2 (int n - 52) = of_int j"
  shows "to_double x = Fin x"
proof -
  have u: "pow2 (int n - 52) \<noteq> 0" using pow2_pos [of "int n - 52"] by simp
  have y: "of_int j * pow2 (int n - 52) = x"
    using assms(5) u by (simp add: field_simps)
  have "\<bar>x\<bar> < 2 ^ 1024"
  proof -
    have "(2::real) ^ Suc n \<le> 2 ^ 1024" using assms(4) by (intro power_increasing) auto
    with assms(3) show ?thesis by linarith
  qed
  with to_double_eval [OF assms(1-4), of j] assms(5) y show ?thesis by simp
qed

lemma to_double_int:
  fixes k :: int
  assumes "\<bar>k\<bar> \<le> 2 ^ 53"
  shows "to_double (of_int k) = Fin (of_int k)"
proof (cases "k = 0")
  case True
  then show ?thesis by (simp add: to_double_def)
next
  case False
  define m where "m = nat \<bar>k\<bar>"
  have m: "0 < m" "real m = \<bar>of_int k\<bar>" "m \<le> 2 ^ 53"
    using False assms by (auto simp: m_def nat_le_iff)
  define n where "n = nat \<lfloor>log 2 (real m)\<rfloor>"
  have n: "2 ^ n \<le> m" "m < 2 ^ Suc n"
    using m(1) floor_log_nat_eq_powr_iff [of 2 m "n"]
    by (simp_all add: n_def)
  have n53: "n \<le> 53"
  proof (rule ccontr)
    assume "\<not> n \<le> 53"
    then have "(2::nat) ^ 54 \<le> 2 ^ n" by (intro power_increasing) auto
    with n(1) m(3) show False by simp
  qed
  have rn: "2 ^ n \<le> \<bar>real_of_int k\<bar>" "\<bar>real_of_int k\<bar> < 2 ^ Suc n"
    using n m(2) by (metis of_nat_le_iff of_nat_numeral of_nat_power, metis of_nat_less_iff of_nat_numeral of_nat_power)
  have "\<exists>j. real_of_int k / pow2 (int n - 52) = of_int j"
  proof (cases "n \<le> 52")
    case True
    then have "pow2 (int n - 52) = 1 / 2 ^ (52 - n)"
      by (cases "n = 52") (simp_all add: pow2_def nat_diff_distrib')
    then have "real_of_int k / pow2 (int n - 52) = of_int (k * 2 ^ (52 - n))"
      by simp
    then show ?thesis by blast
  next
    case False
    with n53 have n': "n = 53" by simp
    with n(1) m(3) have "m = 2 ^ 53" by simp
    then have "\<bar>k\<bar> = 2 ^ 53" using m(2) by (simp add: m_def)
    then have "k = 2 ^ 53 \<or> k = - (2 ^ 53)" by linarith
    then have "real_of_int k / pow2 (int n - 52) = of_int (k div 2)"
      by (auto simp: n' pow2_def)
    then show ?thesis by blast
  qed
  then obtain j where j: "real_of_int k / pow2 (int n - 52) = of_int j" by blast
  show ?thesis
    using to_double_exact [OF _ rn _ j] False n53 by simp
qed


lemma to_double_Ints:
  assumes "x \<in> \<int>" and "\<bar>x\<bar> \<le> 2 ^ 53"
  shows "to_double x = Fin x"
proof -
  from assms(1) obtain k :: int where k: "x = of_int k" by (auto elim: Ints_cases)
  with assms(2) have "\<bar>real_of_int k\<bar> \<le> 2 ^ 53" by simp
  then have "real_of_int \<bar>k\<bar> \<le> real_of_int (2 ^ 53)" by simp
  then have "\<bar>k\<bar> \<le> 2 ^ 53" by (simp only: of_int_le_iff)
  from to_double_int [OF this] k show ?thesis by simp
qed

lemma to_double_numeral:
  "numeral k \<le> (2 ^ 53 :: int) \<Longrightarrow> to_double (numeral k) = Fin (numeral k)"
  using to_double_Ints [of "numeral k"] by simp

lemma store_apply: "store m k v k' = (if k' = k \<and> k \<noteq> ''__proto__'' then Some v else m k')"
  by (simp add: store_def)

subsection \<open>One tick of the scene, evaluated\<close>

lemma bf_demo:
  "predecessors (bellmanFord demoNodes
       (map (\<lambda>e. e\<lparr> efrom := eto e, eto := efrom e \<rparr>) demoEdges) ''node_1_0'') ''node_0_0''
   = Some (Some ''node_1_0'')"
  by (simp add: bellmanFord_def demoNodes_def demoEdges_def initTables_def relax_pass_def
        relax_def numeral_3_eq_3 store_def to_double_numeral)

lemma scene_expire:
  "(scene st m r ps)\<lparr> roadBlocks := filter (\<lambda>rb. expiresAt rb > nowMs demoEnv)
       (roadBlocks (scene st m r ps)) \<rparr> = scene st m r ps"
  by (simp add: scene_def demoState_def)

lemma scene_dyn: "dynamicEdges (scene st m r ps) = Some demoEdges"
  by (simp add: dynamicEdges_def dynamicEdge_def scene_def demoState_def demoEdges_def Let_def)

lemma scene_spawn:
  "spawn demoEnv 16 (scene st m r ps) = Some ((scene st m r ps)\<lparr> spawnTimer := 16 \<rparr>)"
  by (simp add: spawn_def scene_def demoState_def Let_def)

lemma scene_fields:
  "nodes ((scene st m r ps)\<lparr> spawnTimer := 16 \<rparr>) = demoNodes"
  "roadBlocks ((scene st m r ps)\<lparr> spawnTimer := 16 \<rparr>) = []"
  "endNodeId ((scene st m r ps)\<lparr> spawnTimer := 16 \<rparr>) = ''node_1_0''"
  "lives ((scene st m r ps)\<lparr> spawnTimer := 16 \<rparr>) = 20"
  "status ((scene st m r ps)\<lparr> spawnTimer := 16 \<rparr>) = st"
  "enemies ((scene st m r ps)\<lparr> spawnTimer := 16 \<rparr>) = [demoEnemy r]"
  "money ((scene st m r ps)\<lparr> spawnTimer := 16 \<rparr>) = m"
  "projectiles ((scene st m r ps)\<lparr> spawnTimer := 16 \<rparr>) = ps"
  "towers ((scene st m r ps)\<lparr> spawnTimer := 16 \<rparr>) = []"
  by (simp_all add: scene_def demoState_def)

lemma scene_move:
  "moveEnemies demoNodes [] (predecessors (bellmanFord demoNodes
       (map (\<lambda>e. e\<lparr> efrom := eto e, eto := efrom e \<rparr>) demoEdges) ''node_1_0''))
     ''node_1_0'' 16 20 st [demoEnemy r]
   = Some ([movedEnemy r], 20, st)"
  apply (simp add: moveEnemy_def bf_demo demoEnemy_def movedEnemy_def)
  apply (simp add: advance_def keepAlive_def demoNodes_def Let_def)
  done

lemma scene_simulate:
  assumes "moveProjectiles 16 [movedEnemy r] m ps = (ps', es', m')"
  shows "simulate demoEnv (scene st m r ps) 16 = Some (sceneAfter st m' es' ps')"
  unfolding simulate_def Let_def
  apply (simp only: scene_expire scene_dyn scene_spawn option.case)
  apply (simp only: scene_fields scene_move assms option.case prod.case fireTowers.simps)
  apply (simp add: waveCompletion_def scene_def sceneAfter_def demoState_def)
  done

lemma scene_tick:
  assumes "st = playing \<or> st = paused"
    and "moveProjectiles 16 [movedEnemy r] m ps = (ps', es', m')"
  shows "updateGame demoEnv (scene st m r ps) 16 = Some (sceneAfter st m' es' ps')"
proof -
  have "status (scene st m r ps) = st"
    by (simp add: scene_def)
  with assms(1) show ?thesis
    by (auto simp: updateGame_def scene_simulate [OF assms(2)])
qed

lemma two_shots:
  "moveProjectiles 16 [movedEnemy r] m [demoShot ''p1'', demoShot ''p2'']
   = ([], [(movedEnemy r)\<lparr> hp := - 10 \<rparr>], m + r + r)"
  by (simp add: stepProjectile_def singleHit_def demoShot_def demoEnemy_def movedEnemy_def
        Let_def)

subsection \<open>The paused state\<close>

text \<open>
  Claim C5, as stated, fails: \<open>updateGame\<close> has no case for \<open>paused\<close> and runs the whole
  simulation on a paused state. In the scene, paused and with two shots in flight, one call
  of 16 ms advances the spawn timer, moves the enemy, resolves both projectiles and pays
  the reward.
\<close>

theorem paused_tick_counterexample:
  "status (scene paused 800 8 [demoShot ''p1'', demoShot ''p2'']) = paused
   \<and> updateGame demoEnv (scene paused 800 8 [demoShot ''p1'', demoShot ''p2'']) 16
       = Some (sceneAfter paused 816 [(movedEnemy 8)\<lparr> hp := - 10 \<rparr>] [])
   \<and> sceneAfter paused 816 [(movedEnemy 8)\<lparr> hp := - 10 \<rparr>] []
       \<noteq> scene paused 800 8 [demoShot ''p1'', demoShot ''p2'']
   \<and> e_x (demoEnemy 8) = 40 \<and> e_x (movedEnemy 8) = 41.44"
  using scene_tick [where st = paused and r = 8 and m = 800, OF _ two_shots]
  by (simp add: scene_def sceneAfter_def demoState_def demoEnemy_def movedEnemy_def)

text \<open>
  Claim C5, amended. The pause is kept by the caller: the frame callback returns a paused
  state as it is, without calling \<open>updateGame\<close>; \<open>updateGame\<close> itself, called on a paused
  state, is the simulation step.
\<close>

theorem paused_tick_guarded_by_caller:
  "status s = paused \<Longrightarrow>
     animate env s deltaTime = Some s \<and> updateGame env s deltaTime = simulate env s deltaTime"
  by (simp add: animate_def updateGame_def)

theorem paused_tick_guarded_by_caller_witness:
  "animate demoEnv (scene paused 800 8 []) 16 = Some (scene paused 800 8 [])
   \<and> updateGame demoEnv (scene paused 800 8 []) 16 = simulate demoEnv (scene paused 800 8 []) 16"
  using paused_tick_guarded_by_caller [of "scene paused 800 8 []" demoEnv 16]
  by (simp add: scene_def)

subsection \<open>Rewards\<close>

text \<open>
  Claim C7 on the single-target branch. Two single-target projectiles of damage 10 reach an
  enemy with 10 hit points and reward 8 in the same tick: the first takes it to 0 and pays
  8, the second finds it still in the list, takes it to -10 and pays 8 again. Money goes
  from 800 to 816.
\<close>

theorem single_target_reward_paid_twice:
  "money (scene playing 800 8 [demoShot ''p1'', demoShot ''p2'']) = 800
   \<and> map reward (enemies (scene playing 800 8 [demoShot ''p1'', demoShot ''p2''])) = [8]
   \<and> updateGame demoEnv (scene playing 800 8 [demoShot ''p1'', demoShot ''p2'']) 16
       = Some (sceneAfter playing 816 [(movedEnemy 8)\<lparr> hp := - 10 \<rparr>] [])
   \<and> money (sceneAfter playing 816 [(movedEnemy 8)\<lparr> hp := - 10 \<rparr>] []) = 816"
  using scene_tick [where st = playing and r = 8 and m = 800, OF _ two_shots]
  by (simp add: scene_def sceneAfter_def demoState_def demoEnemy_def)

subsection \<open>What a tick keeps: rewards and live enemies\<close>

lemma moveEnemy_kept:
  assumes "moveEnemy ns rbs preds endId dt lv st e = Some (Some e', lv', st')"
  shows "reward e' = reward e \<and> (0 < hp e' \<or> nextNodeId e' = None \<or> nextNodeId e' = Some [])"
  using assms
  by (auto simp: moveEnemy_def noNextNode_def advance_def keepAlive_def Let_def
        split: option.splits if_splits)

lemma moveEnemies_kept:
  assumes "moveEnemies ns rbs preds endId dt lv st es = Some (kept, lv', st')"
  shows "\<forall>e' \<in> set kept. (\<exists>e \<in> set es. reward e' = reward e)
            \<and> (0 < hp e' \<or> nextNodeId e' = None \<or> nextNodeId e' = Some [])"
  using assms
proof (induction es arbitrary: lv st kept lv' st')
  case Nil
  then show ?case by simp
next
  case (Cons a es)
  from Cons.prems obtain r lv1 st1 kept1 where
    a: "moveEnemy ns rbs preds endId dt lv st a = Some (r, lv1, st1)"
    and rest: "moveEnemies ns rbs preds endId dt lv1 st1 es = Some (kept1, lv', st')"
    and kept: "kept = (case r of None \<Rightarrow> kept1 | Some e' \<Rightarrow> e' # kept1)"
    by (auto split: option.splits)
  from Cons.IH [OF rest] have ih: "\<forall>e' \<in> set kept1. (\<exists>e \<in> set es. reward e' = reward e)
            \<and> (0 < hp e' \<or> nextNodeId e' = None \<or> nextNodeId e' = Some [])" .
  show ?case
  proof (cases r)
    case None
    with kept ih show ?thesis by auto
  next
    case (Some e')
    with a have "reward e' = reward a \<and> (0 < hp e' \<or> nextNodeId e' = None \<or> nextNodeId e' = Some [])"
      using moveEnemy_kept by blast
    with kept Some ih show ?thesis by auto
  qed
qed

lemma aoeHit_inv:
  assumes "\<forall>e \<in> set es. 0 \<le> reward e" and "aoeHit p r es m = (es', m')"
  shows "m \<le> m' \<and> (\<forall>e \<in> set es'. 0 \<le> reward e)"
  using assms
proof (induction es arbitrary: m es' m')
  case Nil
  then show ?case by simp
next
  case (Cons a es)
  then show ?case
    by (fastforce simp: Let_def split: if_splits prod.splits)
qed

lemma hitTarget_rewards:
  "\<forall>e \<in> set es. 0 \<le> reward e \<Longrightarrow> \<forall>e \<in> set (hitTarget tid dmg es). 0 \<le> reward e"
  by (induction es) auto

lemma stepProjectile_inv:
  assumes "\<forall>e \<in> set es. 0 \<le> reward e" and "stepProjectile dt es m p = (r, es', m')"
  shows "m \<le> m' \<and> (\<forall>e \<in> set es'. 0 \<le> reward e)"
proof (cases "find (\<lambda>e. e_id e = targetId p) es")
  case None
  with assms show ?thesis by (simp add: stepProjectile_def)
next
  case (Some target)
  then have "target \<in> set es"
    by (auto simp: find_Some_iff)
  with assms(1) have t: "0 \<le> reward target" by simp
  have single: "\<And>es1 m1. singleHit p target es m = (es1, m1) \<Longrightarrow>
      m \<le> m1 \<and> (\<forall>e \<in> set es1. 0 \<le> reward e)"
    using t hitTarget_rewards [OF assms(1)] by (auto simp: singleHit_def split: if_splits)
  from assms Some show ?thesis
    using single aoeHit_inv [OF assms(1)]
    by (auto simp: stepProjectile_def Let_def split: if_splits option.splits prod.splits
          simp del: aoeHit.simps)
qed

lemma moveProjectiles_inv:
  assumes "\<forall>e \<in> set es. 0 \<le> reward e" and "moveProjectiles dt es m ps = (kept, es', m')"
  shows "m \<le> m' \<and> (\<forall>e \<in> set es'. 0 \<le> reward e)"
  using assms
proof (induction ps arbitrary: es m kept es' m')
  case Nil
  then show ?case by simp
next
  case (Cons p ps)
  from Cons.prems(2) obtain r es1 m1 kept1 where
    st: "stepProjectile dt es m p = (r, es1, m1)"
    and rest: "moveProjectiles dt es1 m1 ps = (kept1, es', m')"
    by (auto split: prod.splits)
  from stepProjectile_inv [OF Cons.prems(1) st]
  have 1: "m \<le> m1" and 2: "\<forall>e \<in> set es1. 0 \<le> reward e" by auto
  from Cons.IH [OF 2 rest] 1 show ?case by auto
qed

lemma base_reward_nonneg: "0 \<le> base_reward ty"
  by (cases ty) auto

lemma spawn_inv:
  assumes "spawn env dt s = Some s'" and "rewards_ok s"
  shows "rewards_ok s' \<and> money s' = money s \<and> projectiles s' = projectiles s"
  using assms
  by (auto simp: spawn_def rewards_ok_def Let_def base_reward_nonneg
        split: if_splits option.splits)

lemma waveCompletion_fields:
  "enemies (waveCompletion s) = enemies s" "money (waveCompletion s) = money s"
  by (simp_all add: waveCompletion_def)

lemma simulate_parts:
  assumes "simulate env s dt = Some s'"
  obtains dyn s2 es3 lv3 st3 ps4 es4 m4 ts5 shots where
    "spawn env dt (s\<lparr> roadBlocks := filter (\<lambda>rb. expiresAt rb > nowMs env) (roadBlocks s) \<rparr>)
       = Some s2"
    "moveEnemies (nodes s2) (roadBlocks s2)
       (predecessors (bellmanFord (nodes s2)
          (map (\<lambda>e. e\<lparr> efrom := eto e, eto := efrom e \<rparr>) dyn) (endNodeId s2)))
       (endNodeId s2) dt (lives s2) (status s2) (enemies s2) = Some (es3, lv3, st3)"
    "moveProjectiles dt es3 (money s2) (projectiles s2) = (ps4, es4, m4)"
    "s' = waveCompletion (s2\<lparr> enemies := es4, lives := lv3, status := st3,
            projectiles := ps4 @ shots, money := m4, towers := ts5 \<rparr>)"
proof -
  let ?s1 = "s\<lparr> roadBlocks := filter (\<lambda>rb. expiresAt rb > nowMs env) (roadBlocks s) \<rparr>"
  from assms obtain dyn where dyn: "dynamicEdges ?s1 = Some dyn"
    by (cases "dynamicEdges ?s1") (simp_all add: simulate_def Let_def)
  from assms dyn obtain s2 where sp: "spawn env dt ?s1 = Some s2"
    by (cases "spawn env dt ?s1") (simp_all add: simulate_def Let_def)
  let ?mv = "moveEnemies (nodes s2) (roadBlocks s2)
               (predecessors (bellmanFord (nodes s2)
                  (map (\<lambda>e. e\<lparr> efrom := eto e, eto := efrom e \<rparr>) dyn) (endNodeId s2)))
               (endNodeId s2) dt (lives s2) (status s2) (enemies s2)"
  from assms dyn sp obtain es3 lv3 st3 where mv: "?mv = Some (es3, lv3, st3)"
    by (cases ?mv) (auto simp add: simulate_def Let_def)
  obtain ps4 es4 m4 where
    pj: "moveProjectiles dt es3 (money s2) (projectiles s2) = (ps4, es4, m4)"
    by (cases "moveProjectiles dt es3 (money s2) (projectiles s2)") auto
  from assms dyn sp mv pj obtain ts5 shots where
    "s' = waveCompletion (s2\<lparr> enemies := es4, lives := lv3, status := st3,
            projectiles := ps4 @ shots, money := m4, towers := ts5 \<rparr>)"
    by (cases "fireTowers env (nodes s2) es4 0 (towers s2)") (auto simp add: simulate_def Let_def)
  with sp mv pj show thesis
    using that by blast
qed

lemma simulate_inv:
  assumes "simulate env s dt = Some s'" and "0 \<le> money s" and "rewards_ok s"
  shows "0 \<le> money s' \<and> rewards_ok s'"
proof -
  let ?s1 = "s\<lparr> roadBlocks := filter (\<lambda>rb. expiresAt rb > nowMs env) (roadBlocks s) \<rparr>"
  from assms(1) obtain dyn s2 es3 lv3 st3 ps4 es4 m4 ts5 shots where
    sp: "spawn env dt ?s1 = Some s2"
    and mv: "moveEnemies (nodes s2) (roadBlocks s2)
               (predecessors (bellmanFord (nodes s2)
                  (map (\<lambda>e. e\<lparr> efrom := eto e, eto := efrom e \<rparr>) dyn) (endNodeId s2)))
               (endNodeId s2) dt (lives s2) (status s2) (enemies s2) = Some (es3, lv3, st3)"
    and pj: "moveProjectiles dt es3 (money s2) (projectiles s2) = (ps4, es4, m4)"
    and res: "s' = waveCompletion (s2\<lparr> enemies := es4, lives := lv3, status := st3,
                 projectiles := ps4 @ shots, money := m4, towers := ts5 \<rparr>)"
    by (rule simulate_parts)
  have ok1: "rewards_ok ?s1" using assms(3) by (simp add: rewards_ok_def)
  from spawn_inv [OF sp ok1] have ok2: "rewards_ok s2" and m2: "money s2 = money s"
    by auto
  from moveEnemies_kept [OF mv] ok2 have ok3: "\<forall>e \<in> set es3. 0 \<le> reward e"
    by (fastforce simp: rewards_ok_def)
  from moveProjectiles_inv [OF ok3 pj] have "money s2 \<le> m4" "\<forall>e \<in> set es4. 0 \<le> reward e"
    by auto
  with m2 assms(2) res show ?thesis
    by (simp add: waveCompletion_fields rewards_ok_def)
qed

lemma startNextWave_inv:
  assumes "startNextWave rnd s = Some s'" and "0 \<le> money s" and "rewards_ok s"
  shows "0 \<le> money s' \<and> rewards_ok s'"
  using assms
  by (auto simp: startNextWave_def rewards_ok_def Let_def split: if_splits option.splits)

lemma updateGame_inv:
  assumes "updateGame env s dt = Some s'" and "0 \<le> money s" and "rewards_ok s"
  shows "0 \<le> money s' \<and> rewards_ok s'"
proof -
  have t: "0 \<le> money (s\<lparr> timer := timer s - dt \<rparr>)" "rewards_ok (s\<lparr> timer := timer s - dt \<rparr>)"
    using assms(2,3) by (simp_all add: rewards_ok_def)
  show ?thesis
  proof (cases "status s = build_phase \<or> status s = stage_transition \<or> status s = wave_countdown")
    case True
    show ?thesis
    proof (cases "timer s - dt \<le> 0")
      case le: True
      with True assms(1) have "startNextWave (mapRnd env) (s\<lparr> timer := timer s - dt \<rparr>) = Some s'"
        by (simp add: updateGame_def Let_def)
      then show ?thesis using startNextWave_inv t by blast
    next
      case gt: False
      with True assms(1) have "s' = s\<lparr> timer := timer s - dt \<rparr>"
        by (simp add: updateGame_def Let_def)
      then show ?thesis using t by simp
    qed
  next
    case False
    show ?thesis
    proof (cases "status s = game_over")
      case True
      with False assms(1) have "s' = s"
        by (simp add: updateGame_def)
      then show ?thesis using assms by simp
    next
      case notover: False
      with False assms(1) have "simulate env s dt = Some s'"
        by (simp add: updateGame_def)
      then show ?thesis using simulate_inv assms by blast
    qed
  qed
qed

lemma placeTower_money: "0 \<le> money s \<Longrightarrow> 0 \<le> money (placeTower newId s nodeId)"
  by (auto simp: placeTower_def Let_def split: option.splits)

lemma placeRoadBlock_money: "0 \<le> money s \<Longrightarrow> 0 \<le> money (placeRoadBlock t s nodeId)"
  by (auto simp: placeRoadBlock_def Let_def split: option.splits)

lemma upgradeTower_money: "0 \<le> money s \<Longrightarrow> 0 \<le> money (upgradeTower s towerId ut)"
  by (auto simp: upgradeTower_def Let_def split: option.splits)

lemma commands_enemies:
  "enemies (placeTower newId s nodeId) = enemies s"
  "enemies (placeRoadBlock t s nodeId) = enemies s"
  "enemies (upgradeTower s towerId ut) = enemies s"
  by (auto simp: placeTower_def placeRoadBlock_def upgradeTower_def Let_def split: option.splits)

lemma init_inv: "initGameState rnd = Some s \<Longrightarrow> money s = 800 \<and> rewards_ok s"
  by (auto simp: initGameState_def rewards_ok_def split: option.splits)

lemma reachable_inv: "reachable s \<Longrightarrow> 0 \<le> money s \<and> rewards_ok s"
proof (induction rule: reachable.induct)
  case (r_init rnd s)
  then show ?case using init_inv by fastforce
next
  case (r_tick s env deltaTime s')
  then show ?case using updateGame_inv by blast
next
  case (r_tower s newId nodeId)
  then show ?case by (simp add: placeTower_money rewards_ok_def commands_enemies)
next
  case (r_block s t nodeId)
  then show ?case by (simp add: placeRoadBlock_money rewards_ok_def commands_enemies)
next
  case (r_upgrade s towerId upgradeType)
  then show ?case by (simp add: upgradeTower_money rewards_ok_def commands_enemies)
next
  case (r_wave s rnd s')
  then show ?case using startNextWave_inv by blast
next
  case (r_pause s)
  then show ?case by (simp add: togglePause_def rewards_ok_def)
qed



lemma one_shot:
  "moveProjectiles 16 [movedEnemy r] m [demoShot ''p1'']
   = ([], [(movedEnemy r)\<lparr> hp := 0 \<rparr>], m + r)"
  by (simp add: stepProjectile_def singleHit_def demoShot_def demoEnemy_def movedEnemy_def
        Let_def)

subsection \<open>Enemies without hit points\<close>




subsection \<open>The corridor of a generated graph\<close>

lemma digit_chars: "digit_char 0 = CHR ''0''" "digit_char 9 = CHR ''9''"
  by (simp_all add: digit_char_def char_of_def bit_0)

lemma node_name_00: "node_name 0 0 = ''node_0_0''"
  by (simp add: node_name_def show_int_def show_nat.simps digit_chars)

lemma node_name_99: "node_name 9 9 = ''node_9_9''"
  by (simp add: node_name_def show_int_def show_nat.simps digit_chars)

lemma corridor_mono: "corridor S x y \<Longrightarrow> S \<subseteq> T \<Longrightarrow> corridor T x y"
  by (induction rule: corridor.induct) (auto intro: corridor.intros)

lemma createPath_loop_corridor:
  assumes "curX \<le> 9" "curY \<le> 9"
    and "node_name (int curX) (int curY) \<in> ids"
  shows "\<exists>ids' i'. createPath_loop rnd i curX curY ids = Some (ids', i')
            \<and> ids \<subseteq> ids' \<and> corridor ids' curX curY"
  using assms
proof (induction "18 - curX - curY" arbitrary: i curX curY ids)
  case 0
  then have xy: "curX = 9" "curY = 9" by auto
  then have "createPath_loop rnd i curX curY ids = Some (ids, i)"
    by (subst createPath_loop.simps) (simp add: GRID_SIZE_def)
  moreover have "corridor ids curX curY"
    using "0.prems"(3) xy by (auto intro: c_goal)
  ultimately show ?case by blast
next
  case (Suc k)
  then have more: "curX < 9 \<or> curY < 9" by auto
  show ?case
  proof (cases "goRight rnd i curX curY")
    case True
    then have x: "curX < 9" by (simp add: goRight_def GRID_SIZE_def)
    let ?ids = "insert (node_name (int (curX + 1)) (int curY)) ids"
    have eq: "createPath_loop rnd i curX curY ids
                = createPath_loop rnd (drawn i curX curY) (curX + 1) curY ?ids"
      using True more by (subst createPath_loop.simps) (simp add: GRID_SIZE_def)
    have "k = 18 - (curX + 1) - curY"
      using Suc.hyps(2) by simp
    from Suc.hyps(1) [OF this, of ?ids "drawn i curX curY"] x Suc.prems(2)
    obtain ids' i' where r: "createPath_loop rnd (drawn i curX curY) (curX + 1) curY ?ids
                               = Some (ids', i')"
      and sub: "?ids \<subseteq> ids'" and c: "corridor ids' (Suc curX) curY"
      by auto
    from sub Suc.prems(3) have "node_name (int curX) (int curY) \<in> ids'" by auto
    then have "corridor ids' curX curY"
      using x Suc.prems(2) c by (rule c_right)
    with eq r sub show ?thesis by auto
  next
    case False
    have y: "curY < 9"
    proof (rule ccontr)
      assume "\<not> curY < 9"
      with Suc.prems(2) more have "curY = 9" "curX < 9" by auto
      with False show False by (simp add: goRight_def GRID_SIZE_def)
    qed
    let ?ids = "insert (node_name (int curX) (int (curY + 1))) ids"
    have eq: "createPath_loop rnd i curX curY ids
                = createPath_loop rnd (drawn i curX curY) curX (curY + 1) ?ids"
      using False y by (subst createPath_loop.simps) (simp add: GRID_SIZE_def)
    have "k = 18 - curX - (curY + 1)"
      using Suc.hyps(2) by simp
    from Suc.hyps(1) [OF this, of ?ids "drawn i curX curY"] y Suc.prems(1)
    obtain ids' i' where r: "createPath_loop rnd (drawn i curX curY) curX (curY + 1) ?ids
                               = Some (ids', i')"
      and sub: "?ids \<subseteq> ids'" and c: "corridor ids' curX (Suc curY)"
      by auto
    from sub Suc.prems(3) have "node_name (int curX) (int curY) \<in> ids'" by auto
    then have "corridor ids' curX curY"
      using y Suc.prems(1) c by (rule c_down)
    with eq r sub show ?thesis by auto
  qed
qed

lemma createPath_corridor:
  "\<exists>ids' i'. createPath rnd i ids = Some (ids', i') \<and> ids \<subseteq> ids' \<and> corridor ids' 0 0"
  using createPath_loop_corridor [of 0 0 "insert (node_name 0 0) ids" rnd i]
  by (auto simp: createPath_def)

lemma createPaths_total:
  "\<exists>ids' i'. createPaths rnd k i ids = Some (ids', i') \<and> ids \<subseteq> ids'
      \<and> (0 < k \<or> corridor ids 0 0 \<longrightarrow> corridor ids' 0 0)"
proof (induction k arbitrary: i ids)
  case 0
  then show ?case by simp
next
  case (Suc k)
  obtain ids1 i1 where 1: "createPath rnd i ids = Some (ids1, i1)" "ids \<subseteq> ids1" "corridor ids1 0 0"
    using createPath_corridor by blast
  from Suc.IH [of i1 ids1] obtain ids' i' where
    2: "createPaths rnd k i1 ids1 = Some (ids', i')" "ids1 \<subseteq> ids'" "corridor ids' 0 0"
    using 1(3) by auto
  with 1 show ?case by auto
qed

lemma addExtra_superset: "addExtra rnd k i ids = (ids', i') \<Longrightarrow> ids \<subseteq> ids'"
  by (induction k arbitrary: i ids) (auto simp: Let_def)


lemma neighborEdges_iff:
  "e \<in> set (neighborEdges S x y) \<longleftrightarrow>
     node_name (int x) (int y) \<in> S \<and>
     ((x + 1 < 10 \<and> y < 10 \<and> node_name (int (x + 1)) (int y) \<in> S
         \<and> (e = adjEdge x y (x + 1) y \<or> e = adjEdge (x + 1) y x y))
      \<or> (x < 10 \<and> y + 1 < 10 \<and> node_name (int x) (int (y + 1)) \<in> S
         \<and> (e = adjEdge x y x (y + 1) \<or> e = adjEdge x (y + 1) x y)))"
  by (auto simp: neighborEdges_def adjEdge_def GRID_SIZE_def)

lemma gridEdges_iff:
  "e \<in> set (gridEdges S) \<longleftrightarrow>
     (\<exists>x y. x < 10 \<and> y < 10 \<and> e \<in> set (neighborEdges S x y))"
proof
  assume "e \<in> set (gridEdges S)"
  then obtain y x where "y < 10" "x < 10" "e \<in> set (neighborEdges S x y)"
    by (auto simp: gridEdges_def GRID_SIZE_def)
  then show "\<exists>x y. x < 10 \<and> y < 10 \<and> e \<in> set (neighborEdges S x y)"
    by blast
next
  assume "\<exists>x y. x < 10 \<and> y < 10 \<and> e \<in> set (neighborEdges S x y)"
  then obtain x y where "y < 10" "x < 10" "e \<in> set (neighborEdges S x y)"
    by blast
  then show "e \<in> set (gridEdges S)"
    unfolding gridEdges_def GRID_SIZE_def
    by simp (intro bexI [of _ y] bexI [of _ x]; simp)
qed

lemma gridEdges_right:
  assumes "x < 9" "y \<le> 9" "node_name (int x) (int y) \<in> S" "node_name (int (Suc x)) (int y) \<in> S"
  shows "adjEdge x y (Suc x) y \<in> set (gridEdges S)"
  unfolding gridEdges_iff neighborEdges_iff using assms
  by (intro exI [of _ x] exI [of _ y]) simp

lemma gridEdges_down:
  assumes "y < 9" "x \<le> 9" "node_name (int x) (int y) \<in> S" "node_name (int x) (int (Suc y)) \<in> S"
  shows "adjEdge x y x (Suc y) \<in> set (gridEdges S)"
  unfolding gridEdges_iff neighborEdges_iff using assms
  by (intro exI [of _ x] exI [of _ y]) simp

lemma corridor_start: "corridor S x y \<Longrightarrow> node_name (int x) (int y) \<in> S"
  by (induction rule: corridor.induct) auto

lemma corridor_walk:
  "corridor S x y \<Longrightarrow>
     \<exists>p. walk (gridEdges S) (node_name (int x) (int y)) p (node_name 9 9)
          \<and> (\<forall>e \<in> set p. weight e = 10)"
proof (induction rule: corridor.induct)
  case c_goal
  show ?case by (intro exI [of _ "[]"]) simp
next
  case (c_right x y)
  then obtain p where p: "walk (gridEdges S) (node_name (int (Suc x)) (int y)) p (node_name 9 9)"
    "\<forall>e \<in> set p. weight e = 10" by blast
  have "adjEdge x y (Suc x) y \<in> set (gridEdges S)"
    using c_right.hyps(2,3,1) corridor_start [OF c_right.hyps(4)] by (rule gridEdges_right)
  with p have "walk (gridEdges S) (node_name (int x) (int y)) (adjEdge x y (Suc x) y # p)
                 (node_name 9 9)"
    by (simp add: adjEdge_def)
  moreover have "\<forall>e \<in> set (adjEdge x y (Suc x) y # p). weight e = 10"
    using p(2) by (simp add: adjEdge_def)
  ultimately show ?case by blast
next
  case (c_down x y)
  then obtain p where p: "walk (gridEdges S) (node_name (int x) (int (Suc y))) p (node_name 9 9)"
    "\<forall>e \<in> set p. weight e = 10" by blast
  have "adjEdge x y x (Suc y) \<in> set (gridEdges S)"
    using c_down.hyps(2,3,1) corridor_start [OF c_down.hyps(4)] by (rule gridEdges_down)
  with p have "walk (gridEdges S) (node_name (int x) (int y)) (adjEdge x y x (Suc y) # p)
                 (node_name 9 9)"
    by (simp add: adjEdge_def)
  moreover have "\<forall>e \<in> set (adjEdge x y x (Suc y) # p). weight e = 10"
    using p(2) by (simp add: adjEdge_def)
  ultimately show ?case by blast
qed

lemma walk_mono: "walk es u p v \<Longrightarrow> set es \<subseteq> set es' \<Longrightarrow> walk es' u p v"
  by (induction p arbitrary: u) auto

lemma pick_Some:
  assumes "0 \<le> r" "r < 1" "xs \<noteq> []"
  shows "\<exists>x. pick xs r = Some x \<and> x \<in> set xs"
proof -
  have len: "0 < real (length xs)" using assms(3) by simp
  have "r * real (length xs) < real (length xs)"
    using assms(2) len by simp
  then have "\<lfloor>r * real (length xs)\<rfloor> < int (length xs)"
    by (simp add: floor_less_iff)
  moreover have "0 \<le> \<lfloor>r * real (length xs)\<rfloor>"
    using assms(1) by simp
  ultimately show ?thesis
    by (simp add: pick_def Let_def nat_less_iff)
qed

lemma pick_in: "pick xs r = Some x \<Longrightarrow> x \<in> set xs"
  by (auto simp: pick_def Let_def nat_less_iff split: if_splits)

lemma warpEdges_total:
  assumes "valid_rnd rnd"
  shows "\<exists>w. warpEdges rnd i stg ns = Some w"
proof -
  have r: "0 \<le> rnd i" "rnd i < 1" "0 \<le> rnd (Suc i)" "rnd (Suc i) < 1"
    using assms by (auto simp: valid_rnd_def)
  show ?thesis
    unfolding warpEdges_def Let_def
    using pick_Some [OF r(1,2)] pick_Some [OF r(3,4)]
    by (fastforce split: option.splits)
qed

lemma generateGraph_corridor:
  assumes "generateGraph rnd stg = Some g" and "1 \<le> stg"
  shows "g_startNodeId g = ''node_0_0'' \<and> g_endNodeId g = ''node_9_9''
         \<and> (\<exists>p. walk (g_edges g) ''node_0_0'' p ''node_9_9'' \<and> (\<forall>e \<in> set p. weight e = 10))"
proof -
  obtain ids1 i1 where 1: "createPaths rnd (nat (min stg 3)) 0 {} = Some (ids1, i1)"
    and c1: "corridor ids1 0 0"
    using createPaths_total [of rnd "nat (min stg 3)" 0 "{}"] assms(2) by auto
  obtain ids2 i2 where 2: "addExtra rnd (nat (10 + stg * 5)) i1 ids1 = (ids2, i2)"
    by (cases "addExtra rnd (nat (10 + stg * 5)) i1 ids1") auto
  from addExtra_superset [OF 2] c1 have c2: "corridor ids2 0 0"
    by (rule corridor_mono [rotated])
  from assms(1) 1 2 obtain w where
    g: "g = \<lparr> g_nodes = markPath ids2 gridNodes, g_edges = gridEdges ids2 @ w,
              g_startNodeId = ''node_0_0'',
              g_endNodeId = node_name (int (GRID_SIZE - 1)) (int (GRID_SIZE - 1)) \<rparr>"
    by (auto simp: generateGraph_def Let_def split: option.splits)
  from corridor_walk [OF c2] obtain p where
    p: "walk (gridEdges ids2) ''node_0_0'' p ''node_9_9''" "\<forall>e \<in> set p. weight e = 10"
    by (auto simp: node_name_00 node_name_99)
  from p(1) have "walk (g_edges g) ''node_0_0'' p ''node_9_9''"
    by (rule walk_mono) (simp add: g)
  with p(2) g show ?thesis
    by (auto simp: GRID_SIZE_def node_name_99)
qed

lemma generateGraph_total:
  assumes "valid_rnd rnd"
  shows "\<exists>g. generateGraph rnd stg = Some g"
proof -
  obtain ids1 i1 where 1: "createPaths rnd (nat (min stg 3)) 0 {} = Some (ids1, i1)"
    using createPaths_total [of rnd "nat (min stg 3)" 0 "{}"] by auto
  obtain ids2 i2 where 2: "addExtra rnd (nat (10 + stg * 5)) i1 ids1 = (ids2, i2)"
    by (cases "addExtra rnd (nat (10 + stg * 5)) i1 ids1") auto
  obtain w where "warpEdges rnd i2 stg (markPath ids2 gridNodes) = Some w"
    using warpEdges_total [OF assms] by blast
  with 1 2 show ?thesis
    by (simp add: generateGraph_def Let_def)
qed

text \<open>
  Claim C3. For every stage number from 1 on, a graph that \<open>generateGraph\<close> returns has
  start node \<open>node_0_0\<close>, goal node \<open>node_9_9\<close> and a walk from the one to the other made of
  adjacency edges of weight 10 only; and \<open>generateGraph\<close> does return a graph whenever the
  random source keeps to \<open>[0, 1)\<close>.
\<close>

theorem generated_graph_has_corridor:
  assumes "1 \<le> stg"
  shows "(valid_rnd rnd \<longrightarrow> (\<exists>g. generateGraph rnd stg = Some g))
    \<and> (\<forall>g. generateGraph rnd stg = Some g \<longrightarrow>
          g_startNodeId g = ''node_0_0'' \<and> g_endNodeId g = ''node_9_9''
          \<and> (\<exists>p. walk (g_edges g) (g_startNodeId g) p (g_endNodeId g)
                   \<and> (\<forall>e \<in> set p. weight e = 10 \<and> 0 \<le> weight e)))"
  using generateGraph_total [of rnd stg] generateGraph_corridor [OF _ assms, of rnd]
  by fastforce

theorem generated_graph_has_corridor_witness:
  "\<exists>g p. generateGraph (\<lambda>i. 0) 1 = Some g
      \<and> walk (g_edges g) ''node_0_0'' p ''node_9_9''
      \<and> list_all (\<lambda>e. 0 \<le> weight e) p"
proof -
  have "valid_rnd (\<lambda>i. 0)" by (simp add: valid_rnd_def)
  with generated_graph_has_corridor [of 1 "\<lambda>i. 0"] show ?thesis
    by (fastforce simp: list_all_iff)
qed

subsection \<open>Money\<close>

lemma startNextWave_money:
  "startNextWave rnd s = Some s' \<Longrightarrow> 0 \<le> money s \<Longrightarrow> 0 \<le> money s'"
  by (auto simp: startNextWave_def Let_def split: if_splits option.splits)

lemma initGameState_total:
  "valid_rnd rnd \<Longrightarrow> \<exists>s0. initGameState rnd = Some s0 \<and> money s0 = 800"
  using generateGraph_total [of rnd 1] by (auto simp: initGameState_def)

lemma overdraw_rejected:
  "money s < 100 \<Longrightarrow> placeTower newId s nodeId = s"
  "money s < 50 \<Longrightarrow> placeRoadBlock t s roadId = s"
  "money s < 200 \<Longrightarrow> upgradeTower s towerId upgradeType = s"
  by (auto simp: placeTower_def placeRoadBlock_def upgradeTower_def split: option.splits)

text \<open>
  Claim C4, as stated, fails for \<open>updateGame\<close>: what a kill adds to money is the reward the
  enemy carries, and a state whose enemy carries a negative reward goes from money 0 to
  money -10 in one tick.
\<close>

theorem negative_reward_counterexample:
  "money (scene playing 0 (- 5) [demoShot ''p1'', demoShot ''p2'']) = 0
   \<and> updateGame demoEnv (scene playing 0 (- 5) [demoShot ''p1'', demoShot ''p2'']) 16
       = Some (sceneAfter playing (- 10) [(movedEnemy (- 5))\<lparr> hp := - 10 \<rparr>] [])
   \<and> money (sceneAfter playing (- 10) [(movedEnemy (- 5))\<lparr> hp := - 10 \<rparr>] []) = - 10"
  using scene_tick [where st = playing and r = "- 5" and m = 0, OF _ two_shots]
  by (simp add: scene_def sceneAfter_def)

text \<open>
  Claim C4, amended. \<open>initGameState\<close> returns a state with money 800. From a state with
  money at least 0, each of \<open>placeTower\<close>, \<open>placeRoadBlock\<close>, \<open>upgradeTower\<close> and
  \<open>startNextWave\<close> returns a state with money at least 0, and a command that the player
  cannot pay returns the state unchanged. From a state with money at least 0 in which no
  enemy carries a negative reward, \<open>updateGame\<close> returns a state of the same kind. Every
  state of a match, reached from \<open>initGameState\<close> by ticks and commands in any order, has
  money at least 0.
\<close>

theorem money_never_negative:
  "(valid_rnd rnd \<longrightarrow> (\<exists>s0. initGameState rnd = Some s0 \<and> money s0 = 800))
   \<and> (\<forall>s0. initGameState rnd = Some s0 \<longrightarrow> money s0 = 800)
   \<and> (0 \<le> money s \<longrightarrow>
         0 \<le> money (placeTower newId s nodeId)
       \<and> 0 \<le> money (placeRoadBlock t s roadId)
       \<and> 0 \<le> money (upgradeTower s towerId upgradeType)
       \<and> (\<forall>s'. startNextWave rnd s = Some s' \<longrightarrow> 0 \<le> money s'))
   \<and> (money s < 100 \<longrightarrow> placeTower newId s nodeId = s)
   \<and> (money s < 50 \<longrightarrow> placeRoadBlock t s roadId = s)
   \<and> (money s < 200 \<longrightarrow> upgradeTower s towerId upgradeType = s)
   \<and> (0 \<le> money s \<and> rewards_ok s \<longrightarrow>
         (\<forall>s'. updateGame env s deltaTime = Some s' \<longrightarrow> 0 \<le> money s' \<and> rewards_ok s'))
   \<and> (reachable s \<longrightarrow> 0 \<le> money s)"
proof (intro conjI impI allI)
  show "\<exists>s0. initGameState rnd = Some s0 \<and> money s0 = 800" if "valid_rnd rnd"
    using that by (rule initGameState_total)
  show "money s0 = 800" if "initGameState rnd = Some s0" for s0
    using init_inv [OF that] by simp
  show "0 \<le> money (placeTower newId s nodeId)" if "0 \<le> money s"
    using that by (rule placeTower_money)
  show "0 \<le> money (placeRoadBlock t s roadId)" if "0 \<le> money s"
    using that by (rule placeRoadBlock_money)
  show "0 \<le> money (upgradeTower s towerId upgradeType)" if "0 \<le> money s"
    using that by (rule upgradeTower_money)
  show "0 \<le> money s'" if "0 \<le> money s" "startNextWave rnd s = Some s'" for s'
    using that(2,1) by (rule startNextWave_money)
  show "placeTower newId s nodeId = s" if "money s < 100"
    using that by (rule overdraw_rejected)
  show "placeRoadBlock t s roadId = s" if "money s < 50"
    using that by (rule overdraw_rejected)
  show "upgradeTower s towerId upgradeType = s" if "money s < 200"
    using that by (rule overdraw_rejected)
  show "0 \<le> money s'" if "0 \<le> money s \<and> rewards_ok s" "updateGame env s deltaTime = Some s'" for s'
    using updateGame_inv [OF that(2)] that(1) by simp
  show "rewards_ok s'" if "0 \<le> money s \<and> rewards_ok s" "updateGame env s deltaTime = Some s'" for s'
    using updateGame_inv [OF that(2)] that(1) by simp
  show "0 \<le> money s" if "reachable s"
    using reachable_inv [OF that] by simp
qed

theorem money_never_negative_witness:
  "(\<exists>s0. initGameState (\<lambda>i. 0) = Some s0 \<and> money s0 = 800 \<and> reachable s0)
   \<and> money (placeTower ''t1'' demoState ''node_0_1'') = 700
   \<and> money (placeRoadBlock 1000 demoState ''node_0_0'') = 750
   \<and> placeTower ''t1'' (demoState\<lparr> money := 60 \<rparr>) ''node_0_1'' = demoState\<lparr> money := 60 \<rparr>
   \<and> updateGame demoEnv (scene playing 800 8 [demoShot ''p1'']) 16
        = Some (sceneAfter playing 808 [(movedEnemy 8)\<lparr> hp := 0 \<rparr>] [])
   \<and> 0 \<le> money (sceneAfter playing 808 [(movedEnemy 8)\<lparr> hp := 0 \<rparr>] [])"
proof -
  have v: "valid_rnd (\<lambda>i. 0)" by (simp add: valid_rnd_def)
  have tick: "updateGame demoEnv (scene playing 800 8 [demoShot ''p1'']) 16
        = Some (sceneAfter playing 808 [(movedEnemy 8)\<lparr> hp := 0 \<rparr>] [])"
    using scene_tick [where st = playing and r = 8 and m = 800, OF _ one_shot] by simp
  have ok: "0 \<le> money (scene playing 800 8 [demoShot ''p1''])
              \<and> rewards_ok (scene playing 800 8 [demoShot ''p1''])"
    by (simp add: scene_def rewards_ok_def demoEnemy_def)
  from money_never_negative
         [of "\<lambda>i. 0" "scene playing 800 8 [demoShot ''p1'']" "''t1''" "''node_0_1''" 1000
             "''node_0_0''" "''t0''" T_fast_shot demoEnv 16] v tick ok
  have a: "\<exists>s0. initGameState (\<lambda>i. 0) = Some s0 \<and> money s0 = 800"
    and b: "0 \<le> money (sceneAfter playing 808 [(movedEnemy 8)\<lparr> hp := 0 \<rparr>] [])"
    by blast+
  from a obtain s0 where s0: "initGameState (\<lambda>i. 0) = Some s0" "money s0 = 800" by blast
  then have "reachable s0" by (auto intro: r_init)
  with s0 have 1: "\<exists>s0. initGameState (\<lambda>i. 0) = Some s0 \<and> money s0 = 800 \<and> reachable s0"
    by blast
  have 2: "money (placeTower ''t1'' demoState ''node_0_1'') = 700"
    "money (placeRoadBlock 1000 demoState ''node_0_0'') = 750"
    "placeTower ''t1'' (demoState\<lparr> money := 60 \<rparr>) ''node_0_1'' = demoState\<lparr> money := 60 \<rparr>"
    by (simp_all add: placeTower_def placeRoadBlock_def demoState_def demoNodes_def)
  from 1 2 tick b show ?thesis by blast
qed

subsection \<open>Order on stored distances; one relaxation pass\<close>

lemma ideal_le_Fin [simp]: "ideal_le (Val x) (Val y) \<longleftrightarrow> x \<le> y"
  by (auto simp: ideal_le_def)

lemma ideal_le_Infinity [simp]: "ideal_le a Unreached"
  by (simp add: ideal_le_def)

lemma Infinity_ideal_le [simp]: "ideal_le Unreached b \<longleftrightarrow> b = Unreached"
  by (cases b) (auto simp: ideal_le_def)

lemma ideal_le_refl [simp]: "ideal_le a a"
  by (cases a) auto

lemma ideal_le_trans: "ideal_le a b \<Longrightarrow> ideal_le b c \<Longrightarrow> ideal_le a c"
  by (cases a; cases b; cases c) auto

lemma ideal_add_mono: "ideal_le a b \<Longrightarrow> ideal_le (ideal_add a w) (ideal_add b w)"
  by (cases a; cases b) auto

lemma ideal_less_le: "ideal_less a b \<Longrightarrow> ideal_le a b"
  by (cases a; cases b) auto

lemma dle_refl [simp]: "dle d d"
  by (auto simp: dle_def)

lemma dle_trans: "dle d2 d1 \<Longrightarrow> dle d1 d0 \<Longrightarrow> dle d2 d0"
  unfolding dle_def by (metis domD domI ideal_le_trans)

lemma relax_cases:
  obtains (skip) "\<not> relaxable_ideal d e" "relax_ideal (d, p, c) e = (d, p, c)"
  | (upd) a b where "relaxable_ideal d e" "d (efrom e) = Some a" "d (eto e) = Some b"
      "ideal_less (ideal_add a (weight e)) b"
      "relax_ideal (d, p, c) e = (d(eto e \<mapsto> ideal_add a (weight e)), p(eto e \<mapsto> Some (efrom e)), True)"
  by (cases "d (efrom e)"; cases "d (eto e)") (auto simp: relax_ideal_def relaxable_ideal_def)

lemma relax_dle:
  assumes "relax_ideal (d, p, c) e = (d', p', c')"
  shows "dle d' d"
proof (cases rule: relax_cases [where d = d and e = e and p = p and c = c])
  case skip
  with assms show ?thesis by simp
next
  case (upd a b)
  with assms have d': "d' = d(eto e \<mapsto> ideal_add a (weight e))" by simp
  show ?thesis
    unfolding dle_def d' using upd(3,4) by (auto dest: ideal_less_le)
qed

lemma relax_edge:
  assumes "relax_ideal (d, p, c) e = (d', p', c')"
    and "d (efrom e) = Some a" and "d' (eto e) = Some b'"
  shows "ideal_le b' (ideal_add a (weight e))"
proof (cases rule: relax_cases [where d = d and e = e and p = p and c = c])
  case skip
  with assms show ?thesis
    by (auto simp: relaxable_ideal_def ideal_le_def)
next
  case (upd a0 b0)
  with assms show ?thesis by auto
qed

lemma pass_dle:
  "foldl relax_ideal (d, p, c) es = (d', p', c') \<Longrightarrow> dle d' d"
proof (induction es arbitrary: d p c)
  case Nil
  then show ?case by simp
next
  case (Cons e es)
  obtain d1 p1 c1 where 1: "relax_ideal (d, p, c) e = (d1, p1, c1)"
    by (cases "relax_ideal (d, p, c) e") auto
  with Cons.prems have "foldl relax_ideal (d1, p1, c1) es = (d', p', c')" by simp
  from Cons.IH [OF this] relax_dle [OF 1] show ?case
    by (rule dle_trans)
qed

lemma pass_edges:
  assumes "foldl relax_ideal (d, p, c) es = (d', p', c')"
    and "e \<in> set es" and "d (efrom e) = Some a" and "d' (eto e) = Some b'"
  shows "ideal_le b' (ideal_add a (weight e))"
  using assms
proof (induction es arbitrary: d p c a)
  case Nil
  then show ?case by simp
next
  case (Cons e0 es)
  obtain d1 p1 c1 where 1: "relax_ideal (d, p, c) e0 = (d1, p1, c1)"
    by (cases "relax_ideal (d, p, c) e0") auto
  with Cons.prems(1) have rest: "foldl relax_ideal (d1, p1, c1) es = (d', p', c')" by simp
  have le1: "dle d1 d" by (rule relax_dle [OF 1])
  have le2: "dle d' d1" by (rule pass_dle [OF rest])
  show ?case
  proof (cases "e \<in> set es")
    case True
    from le1 Cons.prems(3) obtain a1 where a1: "d1 (efrom e) = Some a1" "ideal_le a1 a"
      unfolding dle_def by (metis domD domI)
    from Cons.IH [OF rest True a1(1) Cons.prems(4)]
    have "ideal_le b' (ideal_add a1 (weight e))" .
    with ideal_add_mono [OF a1(2)] show ?thesis
      by (blast intro: ideal_le_trans)
  next
    case False
    with Cons.prems(2) have e: "e = e0" by simp
    from le2 Cons.prems(4) obtain b1 where b1: "d1 (eto e) = Some b1" "ideal_le b' b1"
      unfolding dle_def by (metis domD domI)
    from relax_edge [OF 1 [folded e] Cons.prems(3) b1(1)] b1(2) show ?thesis
      by (blast intro: ideal_le_trans)
  qed
qed

lemma relax_changed:
  "relax_ideal (d, p, c) e = (d', p', c') \<Longrightarrow> c \<Longrightarrow> c'"
  by (cases rule: relax_cases [where d = d and e = e and p = p and c = c]) auto

lemma pass_changed_mono:
  "foldl relax_ideal (d, p, c) es = (d', p', c') \<Longrightarrow> c \<Longrightarrow> c'"
proof (induction es arbitrary: d p c)
  case Nil
  then show ?case by simp
next
  case (Cons e es)
  obtain d1 p1 c1 where 1: "relax_ideal (d, p, c) e = (d1, p1, c1)"
    by (cases "relax_ideal (d, p, c) e") auto
  with Cons.prems have "foldl relax_ideal (d1, p1, c1) es = (d', p', c')" by simp
  moreover from relax_changed [OF 1] Cons.prems(2) have c1 by simp
  ultimately show ?case by (rule Cons.IH)
qed

lemma pass_unchanged:
  assumes "foldl relax_ideal (d, p, False) es = (d', p', False)"
  shows "d' = d \<and> p' = p \<and> (\<forall>e \<in> set es. \<not> relaxable_ideal d e)"
  using assms
proof (induction es arbitrary: d p)
  case Nil
  then show ?case by simp
next
  case (Cons e es)
  show ?case
  proof (cases rule: relax_cases [where d = d and e = e and p = p and c = False])
    case skip
    with Cons.prems have "foldl relax_ideal (d, p, False) es = (d', p', False)" by simp
    from Cons.IH [OF this] skip(1) show ?thesis by simp
  next
    case (upd a b)
    with Cons.prems have "foldl relax_ideal (d(eto e \<mapsto> ideal_add a (weight e)),
        p(eto e \<mapsto> Some (efrom e)), True) es = (d', p', False)" by simp
    from pass_changed_mono [OF this] show ?thesis by simp
  qed
qed

subsection \<open>Walks\<close>

lemma wsum_simps [simp]:
  "wsum [] = 0" "wsum (e # p) = weight e + wsum p" "wsum (p @ q) = wsum p + wsum q"
  by (simp_all add: wsum_def)

lemma walk_append:
  "walk G u (p @ q) v \<longleftrightarrow> (\<exists>m. walk G u p m \<and> walk G m q v)"
  by (induction p arbitrary: u) auto

lemma walk_snoc:
  "walk G u (p @ [e]) v \<longleftrightarrow> walk G u p (efrom e) \<and> e \<in> set G \<and> eto e = v"
  by (auto simp: walk_append)

lemma inGraph_iff:
  "e \<in> set (inGraph V es) \<longleftrightarrow> e \<in> set es \<and> efrom e \<in> V \<and> eto e \<in> V"
  by (simp add: inGraph_def)

lemma walk_inGraph_end:
  "walk (inGraph V es) u p v \<Longrightarrow> u \<in> V \<Longrightarrow> v \<in> V"
  by (induction p arbitrary: u) (auto simp: inGraph_iff)

subsection \<open>Invariants of the relaxation\<close>

lemma relax_sound:
  assumes "relax_ideal (d, p, c) e = (d', p', c')" and "e \<in> set es"
    and "sound (inGraph (dom d) es) s d"
  shows "sound (inGraph (dom d') es) s d'"
proof (cases rule: relax_cases [where d = d and e = e and p = p and c = c])
  case skip
  with assms show ?thesis by simp
next
  case (upd a b)
  with assms(1) have d': "d' = d(eto e \<mapsto> ideal_add a (weight e))" by simp
  from upd(3) have dom: "dom d' = dom d" unfolding d' by auto
  let ?G = "inGraph (dom d) es"
  have eG: "e \<in> set ?G"
    using assms(2) upd(2,3) by (auto simp: inGraph_iff)
  show ?thesis
    unfolding dom sound_def
  proof (intro allI impI)
    fix v x assume vx: "d' v = Some (Val x)"
    show "\<exists>q. walk ?G s q v \<and> wsum q = x"
    proof (cases "v = eto e")
      case True
      with vx d' have "ideal_add a (weight e) = Val x" by simp
      then obtain y where y: "a = Val y" "x = y + weight e"
        by (cases a) auto
      with assms(3) upd(2) obtain q where "walk ?G s q (efrom e)" "wsum q = y"
        unfolding sound_def by blast
      with eG True y have "walk ?G s (q @ [e]) v \<and> wsum (q @ [e]) = x"
        by (simp add: walk_snoc)
      then show ?thesis by blast
    next
      case False
      with vx d' have "d v = Some (Val x)" by simp
      with assms(3) show ?thesis unfolding sound_def by blast
    qed
  qed
qed

lemma pass_sound:
  assumes "foldl relax_ideal (d, p, c) es1 = (d', p', c')" and "set es1 \<subseteq> set es"
    and "sound (inGraph (dom d) es) s d"
  shows "sound (inGraph (dom d') es) s d'"
  using assms
proof (induction es1 arbitrary: d p c)
  case Nil
  then show ?case by simp
next
  case (Cons e es1)
  obtain d1 p1 c1 where 1: "relax_ideal (d, p, c) e = (d1, p1, c1)"
    by (cases "relax_ideal (d, p, c) e") auto
  with Cons.prems(1) have rest: "foldl relax_ideal (d1, p1, c1) es1 = (d', p', c')" by simp
  from Cons.prems(2) have "e \<in> set es" "set es1 \<subseteq> set es" by auto
  from relax_sound [OF 1 this(1) Cons.prems(3)] Cons.IH [OF rest this(2)]
  show ?case by blast
qed

lemma bound_dle:
  assumes "bound G s k d" and "dle d' d"
  shows "bound G s k d'"
  unfolding bound_def
proof (intro allI impI)
  fix p v assume "walk G s p v" "length p \<le> k"
  with assms(1) obtain x where x: "d v = Some (Val x)" "x \<le> wsum p"
    unfolding bound_def by blast
  with assms(2) obtain a where a: "d' v = Some a" "ideal_le a (Val x)"
    unfolding dle_def by (metis domD domI)
  then obtain y where "a = Val y" "y \<le> x" by (cases a) auto
  with a x show "\<exists>x. d' v = Some (Val x) \<and> x \<le> wsum p" by auto
qed

lemma pass_bound:
  assumes "foldl relax_ideal (d, p, c) es = (d', p', c')"
    and "bound (inGraph (dom d) es) s k d"
  shows "bound (inGraph (dom d') es) s (Suc k) d'"
proof -
  have le: "dle d' d" by (rule pass_dle [OF assms(1)])
  then have dom: "dom d' = dom d" by (simp add: dle_def)
  let ?G = "inGraph (dom d) es"
  show ?thesis
    unfolding dom bound_def
  proof (intro allI impI)
    fix q v assume q: "walk ?G s q v" "length q \<le> Suc k"
    show "\<exists>x. d' v = Some (Val x) \<and> x \<le> wsum q"
    proof (cases q rule: rev_cases)
      case Nil
      with q bound_dle [OF assms(2) le] show ?thesis
        unfolding bound_def by (metis le0 list.size(3))
    next
      case (snoc q0 e)
      with q have w0: "walk ?G s q0 (efrom e)" and e: "e \<in> set ?G" "eto e = v"
        and len: "length q0 \<le> k"
        by (auto simp: walk_snoc)
      from assms(2) w0 len obtain x where x: "d (efrom e) = Some (Val x)" "x \<le> wsum q0"
        unfolding bound_def by blast
      from e have "e \<in> set es" "eto e \<in> dom d'" by (auto simp: inGraph_iff dom)
      then obtain b' where b': "d' (eto e) = Some b'" by auto
      from pass_edges [OF assms(1) \<open>e \<in> set es\<close> x(1) b']
      obtain y where "b' = Val y" "y \<le> x + weight e" by (cases b') auto
      with b' e(2) x(2) snoc show ?thesis by auto
    qed
  qed
qed


subsection \<open>Removing cycles from a walk\<close>

lemma verts_drop:
  "k \<le> length p \<Longrightarrow>
     drop k (u # map eto p) = ((u # map eto p) ! k) # map eto (drop k p)"
proof (induction p arbitrary: u k)
  case Nil
  then show ?case by simp
next
  case (Cons e p)
  then show ?case by (cases k) auto
qed

lemma walk_split_at:
  "walk G u p v \<Longrightarrow> k \<le> length p \<Longrightarrow>
     walk G u (take k p) ((u # map eto p) ! k) \<and> walk G ((u # map eto p) ! k) (drop k p) v"
proof (induction p arbitrary: u k)
  case Nil
  then show ?case by simp
next
  case (Cons e p)
  then show ?case by (cases k) auto
qed

lemma shortcut:
  assumes "walk G s p v" and "\<not> distinct (s # map eto p)"
    and nnc: "\<forall>u c. walk G u c u \<longrightarrow> 0 \<le> wsum c"
  shows "\<exists>q. walk G s q v \<and> wsum q \<le> wsum p \<and> length q < length p"
proof -
  let ?vs = "s # map eto p"
  from not_distinct_decomp [OF assms(2)] obtain xs ys zs y where
    vs: "?vs = xs @ [y] @ ys @ [y] @ zs" by blast
  define i where "i = length xs"
  define j where "j = length xs + 1 + length ys"
  have "length ?vs = length xs + length ys + length zs + 2"
    by (subst vs) simp
  then have ij: "i < j" "j \<le> length p" "i \<le> length p"
    by (auto simp: i_def j_def)
  have vi: "?vs ! i = y" by (subst vs) (simp add: i_def nth_append)
  have vj: "?vs ! j = y"
  proof -
    have "?vs = (xs @ [y] @ ys) @ y # zs" by (subst vs) simp
    moreover have "j = length (xs @ [y] @ ys)" by (simp add: j_def)
    ultimately show ?thesis by (metis nth_append_length)
  qed
  let ?r = "drop i p"
  from walk_split_at [OF assms(1) ij(3)] vi
  have w1: "walk G s (take i p) y" and wr: "walk G y ?r v" by auto
  have lr: "j - i \<le> length ?r" using ij by simp
  have "(y # map eto ?r) ! (j - i) = ?vs ! j"
  proof -
    have "y # map eto ?r = drop i ?vs"
      using verts_drop [OF ij(3), of s] vi by simp
    then show ?thesis using ij by (simp del: drop_Suc_Cons)
  qed
  with walk_split_at [OF wr lr] vj
  have wc: "walk G y (take (j - i) ?r) y" and w2: "walk G y (drop (j - i) ?r) v"
    by auto
  let ?q = "take i p @ drop (j - i) ?r"
  have "walk G s ?q v"
    using w1 w2 by (auto simp: walk_append)
  moreover have "wsum p = wsum (take i p) + (wsum (take (j - i) ?r) + wsum (drop (j - i) ?r))"
    by (metis append_take_drop_id wsum_simps(3))
  with nnc wc have "wsum ?q \<le> wsum p"
    by (simp add: order.trans)
  moreover have "length ?q < length p"
    using ij by simp
  ultimately show ?thesis by blast
qed

lemma simple_walk:
  assumes nnc: "\<forall>u c. walk G u c u \<longrightarrow> 0 \<le> wsum c"
    and "walk G s p v"
  shows "\<exists>q. walk G s q v \<and> wsum q \<le> wsum p \<and> distinct (s # map eto q)"
  using assms(2)
proof (induction p rule: measure_induct_rule [where f = length])
  case (less p)
  show ?case
  proof (cases "distinct (s # map eto p)")
    case True
    with less.prems show ?thesis by (intro exI [of _ p]) simp
  next
    case False
    from shortcut [OF less.prems False nnc] obtain q where
      q: "walk G s q v" "wsum q \<le> wsum p" "length q < length p" by blast
    from less.IH [OF q(3) q(1)] q(2) show ?thesis
      by (force intro: order.trans)
  qed
qed

lemma walk_verts:
  "walk (inGraph V es) s p v \<Longrightarrow> s \<in> V \<Longrightarrow> set (s # map eto p) \<subseteq> V"
  by (induction p arbitrary: s) (auto simp: inGraph_iff)

lemma simple_walk_short:
  assumes "walk (inGraph V es) s q v" and "distinct (s # map eto q)" and "s \<in> V" and "finite V"
  shows "Suc (length q) \<le> card V"
proof -
  have "Suc (length q) = card (set (s # map eto q))"
    using distinct_card [OF assms(2)] by simp
  also have "\<dots> \<le> card V"
    using walk_verts [OF assms(1,3)] assms(4) by (intro card_mono) auto
  finally show ?thesis .
qed

subsection \<open>The relaxation loop\<close>

lemma relax_loop_inv:
  assumes "relax_loop_ideal k es (d, p) = (d', p')"
    and "sound (inGraph (dom d) es) s d" and "bound (inGraph (dom d) es) s j d"
  shows "dle d' d \<and> sound (inGraph (dom d') es) s d'
         \<and> (settled es d' \<or> bound (inGraph (dom d') es) s (j + k) d')"
  using assms
proof (induction k arbitrary: d p j)
  case 0
  then show ?case by simp
next
  case (Suc k)
  obtain d1 p1 ch where 1: "foldl relax_ideal (d, p, False) es = (d1, p1, ch)"
    by (cases "foldl relax_ideal (d, p, False) es") auto
  have le1: "dle d1 d" by (rule pass_dle [OF 1])
  have s1: "sound (inGraph (dom d1) es) s d1"
    by (rule pass_sound [OF 1 subset_refl Suc.prems(2)])
  have b1: "bound (inGraph (dom d1) es) s (Suc j) d1"
    by (rule pass_bound [OF 1 Suc.prems(3)])
  show ?case
  proof (cases ch)
    case True
    with 1 Suc.prems(1) have "relax_loop_ideal k es (d1, p1) = (d', p')"
      by (simp add: relax_pass_ideal_def)
    from Suc.IH [OF this s1 b1] le1 show ?thesis
      by (auto intro: dle_trans)
  next
    case False
    with 1 Suc.prems(1) have eq: "d' = d1" "p' = p1"
      by (simp_all add: relax_pass_ideal_def)
    from 1 False have "foldl relax_ideal (d, p, False) es = (d1, p1, False)" by simp
    from pass_unchanged [OF this] have "d1 = d" "settled es d"
      by (auto simp: settled_def)
    with eq Suc.prems(2) show ?thesis by simp
  qed
qed

lemma bound_settled:
  assumes nnc: "\<forall>u c. walk (inGraph (dom d) es) u c u \<longrightarrow> 0 \<le> wsum c"
    and "sound (inGraph (dom d) es) s d" and "bound (inGraph (dom d) es) s k d"
    and "s \<in> dom d" and "finite (dom d)" and "card (dom d) \<le> Suc k"
  shows "settled es d"
  unfolding settled_def
proof (intro ballI notI)
  let ?G = "inGraph (dom d) es"
  fix e assume e: "e \<in> set es" and r: "relaxable_ideal d e"
  then obtain a b where ab: "d (efrom e) = Some a" "d (eto e) = Some b"
    "ideal_less (ideal_add a (weight e)) b"
    by (auto simp: relaxable_ideal_def split: option.splits)
  then obtain x where x: "a = Val x" by (cases a) auto
  with assms(2) ab(1) obtain q where q: "walk ?G s q (efrom e)" "wsum q = x"
    unfolding sound_def by blast
  have "e \<in> set ?G" using e ab by (auto simp: inGraph_iff)
  with q have "walk ?G s (q @ [e]) (eto e)" "wsum (q @ [e]) = x + weight e"
    by (simp_all add: walk_snoc)
  with simple_walk [OF nnc] obtain t where
    t: "walk ?G s t (eto e)" "wsum t \<le> x + weight e" "distinct (s # map eto t)"
    by metis
  from simple_walk_short [OF t(1,3) assms(4,5)] assms(6) have "length t \<le> k" by simp
  with assms(3) t(1) obtain y where "d (eto e) = Some (Val y)" "y \<le> wsum t"
    unfolding bound_def by blast
  with ab x t(2) show False by auto
qed

subsection \<open>The initial tables\<close>

lemma init_distances:
  "fst (initTables_ideal ns s) v
     = (if v = ''__proto__'' then None else if v = s then Some (Val 0)
        else if v \<in> n_id ` set ns then Some Unreached else None)"
  by (simp add: initTables_ideal_def)


lemma init_dom: "dom (fst (initTables_ideal ns s)) = insert s (n_id ` set ns) - {''__proto__''}"
  by (auto simp: init_distances split: if_splits)

lemma init_sound: "sound G s (fst (initTables_ideal ns s))"
  unfolding sound_def
proof (intro allI impI)
  fix v x assume "fst (initTables_ideal ns s) v = Some (Val x)"
  then have "v = s" "x = 0" by (auto simp: init_distances split: if_splits)
  then have "walk G s [] v \<and> wsum [] = x" by simp
  then show "\<exists>p. walk G s p v \<and> wsum p = x" by blast
qed

lemma init_bound: "s \<noteq> ''__proto__'' \<Longrightarrow> bound G s 0 (fst (initTables_ideal ns s))"
  by (auto simp: bound_def init_distances)

text \<open>The outcome of the loop, for a graph whose closed walks all weigh at least 0.\<close>

lemma bellmanFord_settled:
  assumes nnc: "\<forall>u c. walk (inGraph (insert s (n_id ` set ns)) es) u c u \<longrightarrow> 0 \<le> wsum c"
    and src: "s \<in> n_id ` set ns" and np: "''__proto__'' \<notin> n_id ` set ns"
    and run: "relax_loop_ideal (length ns - 1) es (initTables_ideal ns s) = (d, p)"
  shows "dle d (fst (initTables_ideal ns s)) \<and> sound (inGraph (n_id ` set ns) es) s d \<and> settled es d"
proof -
  let ?d0 = "fst (initTables_ideal ns s)"
  let ?V = "n_id ` set ns"
  have V: "insert s ?V = ?V" using src by auto
  have dom0: "dom ?d0 = ?V" using np by (simp add: init_dom V)
  from run have run': "relax_loop_ideal (length ns - 1) es (?d0, snd (initTables_ideal ns s)) = (d, p)"
    by simp
  have sp: "s \<noteq> ''__proto__''" using src np by blast
  from relax_loop_inv [OF run', of s 0] init_sound init_bound [OF sp]
  have le: "dle d ?d0" and so: "sound (inGraph (dom d) es) s d"
    and alt: "settled es d \<or> bound (inGraph (dom d) es) s (length ns - 1) d"
    by auto
  from le dom0 have dom: "dom d = ?V" by (simp add: dle_def)
  have card: "card ?V \<le> Suc (length ns - 1)"
    using card_image_le [of "set ns" n_id] card_length [of ns] by simp
  from alt have "settled es d"
  proof
    assume "bound (inGraph (dom d) es) s (length ns - 1) d"
    with nnc so src card show ?thesis
      by (intro bound_settled [where s = s and k = "length ns - 1"]) (simp_all add: dom V)
  qed
  with le so dom show ?thesis by simp
qed

subsection \<open>Predecessors, for weights that are not negative\<close>







subsection \<open>From ideal numbers to doubles\<close>

lemma lift_apply: "lift d v = map_option emb (d v)"
  by (simp add: lift_def)

lemma lift_upd: "lift (d(k \<mapsto> a)) = (lift d)(k \<mapsto> emb a)"
  by (auto simp: lift_def)

lemma emb_less: "num_less (emb a) (emb b) = ideal_less a b"
  by (cases a; cases b) simp_all

lemma emb_add:
  assumes "\<And>x. a = Val x \<Longrightarrow> x \<in> \<int> \<and> w \<in> \<int> \<and> \<bar>x + w\<bar> \<le> 2 ^ 53"
  shows "num_add (emb a) w = emb (ideal_add a w)"
proof (cases a)
  case (Val x)
  from assms [OF this] have "x + w \<in> \<int>" "\<bar>x + w\<bar> \<le> 2 ^ 53" by simp_all
  then show ?thesis by (simp add: Val to_double_Ints)
next
  case Unreached
  then show ?thesis by simp
qed

lemma fin_keys_finite: "dom d = V \<Longrightarrow> finite V \<Longrightarrow> finite (fin_keys d)"
  by (rule finite_subset [of _ V]) (auto simp: fin_keys_def)

lemma run_inv_range:
  assumes inv: "run_inv V es s W d" and setting: "exact_setting V es s W L n"
    and v: "d v = Some (Val x)" and e: "e \<in> set es"
  shows "x \<in> \<int> \<and> weight e \<in> \<int> \<and> \<bar>x + weight e\<bar> \<le> 2 ^ 53"
proof -
  from inv v have xi: "x \<in> \<int>" and up: "x \<le> W * (real (card (fin_keys d)) - 1)"
    and dom: "dom d = V" and so: "sound (inGraph V es) s d"
    by (auto simp: run_inv_def)
  from setting e have fV: "finite V" and cV: "card V \<le> Suc n" and W0: "0 \<le> W" and L0: "0 \<le> L"
    and wi: "weight e \<in> \<int>" and wb: "\<bar>weight e\<bar> \<le> W"
    and low: "\<And>p v. walk (inGraph V es) s p v \<Longrightarrow> - L \<le> wsum p"
    and size: "L + W * (real n + 1) \<le> 2 ^ 53"
    by (auto simp: exact_setting_def)
  have "fin_keys d \<subseteq> V" using dom by (auto simp: fin_keys_def)
  then have "card (fin_keys d) \<le> card V" using fV by (rule card_mono [rotated])
  with cV have "real (card (fin_keys d)) - 1 \<le> real n" by simp
  then have "W * (real (card (fin_keys d)) - 1) \<le> W * real n"
    using W0 by (rule mult_left_mono)
  with up have hi: "x \<le> W * real n" by simp
  from so v obtain p where "walk (inGraph V es) s p v" "wsum p = x"
    unfolding sound_def by blast
  with low have lo: "- L \<le> x" by blast
  have Wn: "0 \<le> W * real n" using W0 by simp
  have "W * (real n + 1) = W * real n + W" by (simp add: algebra_simps)
  with hi lo wb size L0 Wn have "\<bar>x + weight e\<bar> \<le> 2 ^ 53" by linarith
  with xi wi show ?thesis by simp
qed

lemma relaxable_agree:
  assumes "run_inv V es s W d" and "exact_setting V es s W L n" and "e \<in> set es"
  shows "relaxable (lift d) e = relaxable_ideal d e"
proof (cases "d (efrom e)")
  case None
  then show ?thesis by (simp add: relaxable_def relaxable_ideal_def lift_apply)
next
  case (Some a)
  note a = this
  show ?thesis
  proof (cases "d (eto e)")
    case None
    with a show ?thesis by (simp add: relaxable_def relaxable_ideal_def lift_apply)
  next
    case (Some b)
    have "num_add (emb a) (weight e) = emb (ideal_add a (weight e))"
      using run_inv_range [OF assms(1,2) _ assms(3)] a by (intro emb_add) simp
    with a Some show ?thesis
      by (simp add: relaxable_def relaxable_ideal_def lift_apply emb_less)
  qed
qed

lemma relax_agree:
  assumes inv: "run_inv V es s W d" and setting: "exact_setting V es s W L n" and e: "e \<in> set es"
    and r: "relax_ideal (d, p, c) e = (d', p', c')"
  shows "relax (lift d, p, c) e = (lift d', p', c')"
proof (cases rule: relax_cases [where d = d and e = e and p = p and c = c])
  case skip
  from skip(1) have "\<not> relaxable (lift d) e"
    by (simp add: relaxable_agree [OF inv setting e])
  then have "relax (lift d, p, c) e = (lift d, p, c)"
    by (auto simp: relax_def relaxable_def split: option.splits)
  with skip(2) r show ?thesis by simp
next
  case (upd a b)
  have "eto e \<in> V" using upd(3) inv by (auto simp: run_inv_def)
  with setting have np: "eto e \<noteq> ''__proto__''" by (auto simp: exact_setting_def)
  have add: "num_add (emb a) (weight e) = emb (ideal_add a (weight e))"
    using run_inv_range [OF inv setting _ e] upd(2) by (intro emb_add) simp
  from upd(4) have "num_less (emb (ideal_add a (weight e))) (emb b)" by (simp add: emb_less)
  with upd(2,3) add np
  have "relax (lift d, p, c) e
      = ((lift d)(eto e \<mapsto> emb (ideal_add a (weight e))), p(eto e \<mapsto> Some (efrom e)), True)"
    by (simp add: relax_def lift_apply store_def)
  with upd(5) r show ?thesis by (simp add: lift_upd)
qed

lemma relax_run_inv:
  assumes inv: "run_inv V es s W d" and setting: "exact_setting V es s W L n" and e: "e \<in> set es"
    and r: "relax_ideal (d, p, c) e = (d', p', c')"
  shows "run_inv V es s W d'"
proof (cases rule: relax_cases [where d = d and e = e and p = p and c = c])
  case skip
  with r inv show ?thesis by simp
next
  case (upd a b)
  from upd(4) obtain x where a: "a = Val x" by (cases a) auto
  from upd(5) r have d': "d' = d(eto e \<mapsto> Val (x + weight e))" by (simp add: a)
  from inv have dom: "dom d = V" and so: "sound (inGraph V es) s d"
    and fin: "\<And>v y. d v = Some (Val y) \<Longrightarrow> y \<in> \<int> \<and> y \<le> W * (real (card (fin_keys d)) - 1)"
    by (auto simp: run_inv_def)
  from setting e have fV: "finite V" and W0: "0 \<le> W"
    and wi: "weight e \<in> \<int>" and wb: "\<bar>weight e\<bar> \<le> W"
    by (auto simp: exact_setting_def)
  have dom': "dom d' = V" using relax_dle [OF r] dom by (simp add: dle_def)
  have so': "sound (inGraph V es) s d'"
    using relax_sound [OF r e, of s] so dom dom' by simp
  have ff: "finite (fin_keys d)" "finite (fin_keys d')"
    using fin_keys_finite [OF dom fV] fin_keys_finite [OF dom' fV] by simp_all
  from fin [of "efrom e" x] upd(2) a
  have xa: "x \<in> \<int>" "x \<le> W * (real (card (fin_keys d)) - 1)" by simp_all
  have keys: "fin_keys d' = insert (eto e) (fin_keys d)"
    by (auto simp: d' fin_keys_def)
  then have mono: "card (fin_keys d) \<le> card (fin_keys d')"
    using ff by (intro card_mono) auto
  have bnd: "y \<in> \<int> \<and> y \<le> W * (real (card (fin_keys d')) - 1)" if y: "d' v = Some (Val y)" for v y
  proof (cases "v = eto e")
    case True
    with y have yx: "y = x + weight e" by (simp add: d')
    have yi: "y \<in> \<int>" unfolding yx using xa(1) wi by (rule Ints_add)
    have "y \<le> W * (real (card (fin_keys d')) - 1)"
    proof (cases b)
      case (Val y0)
      with upd(3) have "eto e \<in> fin_keys d" by (simp add: fin_keys_def)
      with keys have "fin_keys d' = fin_keys d" by auto
      moreover from fin [of "eto e" y0] upd(3) Val
      have "y0 \<le> W * (real (card (fin_keys d)) - 1)" by simp
      moreover from upd(4) have "x + weight e < y0" by (simp add: a Val)
      ultimately show ?thesis by (simp add: yx)
    next
      case Unreached
      with upd(3) have "eto e \<notin> fin_keys d" by (simp add: fin_keys_def)
      with keys ff(1) have "card (fin_keys d') = Suc (card (fin_keys d))" by simp
      then have "W * (real (card (fin_keys d')) - 1) = W * (real (card (fin_keys d)) - 1) + W"
        by (simp add: algebra_simps)
      with xa(2) wb show ?thesis by (simp add: yx)
    qed
    with yi show ?thesis by simp
  next
    case False
    with y have "d v = Some (Val y)" by (simp add: d')
    from fin [OF this] have "y \<in> \<int>" "y \<le> W * (real (card (fin_keys d)) - 1)" by simp_all
    moreover have "W * (real (card (fin_keys d)) - 1) \<le> W * (real (card (fin_keys d')) - 1)"
      using mono W0 by (intro mult_left_mono) simp_all
    ultimately show ?thesis by simp
  qed
  show ?thesis
    unfolding run_inv_def using dom' so' bnd by blast
qed

lemma pass_agree:
  assumes setting: "exact_setting V es s W L n"
  shows "run_inv V es s W d \<Longrightarrow> set es1 \<subseteq> set es
     \<Longrightarrow> foldl relax_ideal (d, p, c) es1 = (d', p', c')
     \<Longrightarrow> foldl relax (lift d, p, c) es1 = (lift d', p', c') \<and> run_inv V es s W d'"
proof (induction es1 arbitrary: d p c)
  case Nil
  then show ?case by simp
next
  case (Cons e es1)
  obtain d1 p1 c1 where 1: "relax_ideal (d, p, c) e = (d1, p1, c1)"
    by (cases "relax_ideal (d, p, c) e") auto
  from Cons.prems(2) have e: "e \<in> set es" and sub: "set es1 \<subseteq> set es" by simp_all
  have 2: "relax (lift d, p, c) e = (lift d1, p1, c1)"
    by (rule relax_agree [OF Cons.prems(1) setting e 1])
  have 3: "run_inv V es s W d1"
    by (rule relax_run_inv [OF Cons.prems(1) setting e 1])
  from Cons.prems(3) 1 have "foldl relax_ideal (d1, p1, c1) es1 = (d', p', c')" by simp
  from Cons.IH [OF 3 sub this] 2 show ?case by simp
qed

lemma loop_agree:
  assumes setting: "exact_setting V es s W L n"
  shows "run_inv V es s W d \<Longrightarrow> relax_loop_ideal k es (d, p) = (d', p')
     \<Longrightarrow> relax_loop k es (lift d, p) = (lift d', p') \<and> run_inv V es s W d'"
proof (induction k arbitrary: d p)
  case 0
  then show ?case by simp
next
  case (Suc k)
  obtain d1 p1 c1 where 1: "foldl relax_ideal (d, p, False) es = (d1, p1, c1)"
    by (cases "foldl relax_ideal (d, p, False) es") auto
  from pass_agree [OF setting Suc.prems(1) subset_refl 1]
  have 2: "foldl relax (lift d, p, False) es = (lift d1, p1, c1)" and 3: "run_inv V es s W d1"
    by simp_all
  show ?case
  proof (cases c1)
    case True
    with Suc.prems(2) 1 have "relax_loop_ideal k es (d1, p1) = (d', p')"
      by (simp add: relax_pass_ideal_def)
    from Suc.IH [OF 3 this] 2 True show ?thesis by (simp add: relax_pass_def)
  next
    case False
    with Suc.prems(2) 1 have "d' = d1" "p' = p1" by (simp_all add: relax_pass_ideal_def)
    with 2 3 False show ?thesis by (simp add: relax_pass_def)
  qed
qed

lemma fold_store_infinity:
  "foldl (\<lambda>d n. store d (n_id n) Infinity) m ns v
     = (if v \<in> n_id ` set ns \<and> v \<noteq> ''__proto__'' then Some Infinity else m v)"
  by (induction ns arbitrary: m) (auto simp: store_def)

lemma fold_store_null:
  "foldl (\<lambda>p n. store p (n_id n) None) m ns v
     = (if v \<in> n_id ` set ns \<and> v \<noteq> ''__proto__'' then Some None else m v)"
  by (induction ns arbitrary: m) (auto simp: store_def)

lemma init_agree:
  "initTables ns s = (lift (fst (initTables_ideal ns s)), snd (initTables_ideal ns s))"
proof -
  have "fst (initTables ns s) v = lift (fst (initTables_ideal ns s)) v" for v
    by (simp add: initTables_def initTables_ideal_def lift_def store_apply fold_store_infinity)
  moreover have "snd (initTables ns s) v = snd (initTables_ideal ns s) v" for v
    by (simp add: initTables_def initTables_ideal_def fold_store_null)
  ultimately have "fst (initTables ns s) = lift (fst (initTables_ideal ns s))"
    "snd (initTables ns s) = snd (initTables_ideal ns s)" by (simp_all add: fun_eq_iff)
  then show ?thesis by (simp add: prod_eq_iff)
qed

lemma init_run_inv:
  assumes "0 \<le> W"
  shows "run_inv (dom (fst (initTables_ideal ns s))) es s W (fst (initTables_ideal ns s))"
proof -
  let ?d0 = "fst (initTables_ideal ns s)"
  have "x \<in> \<int> \<and> x \<le> W * (real (card (fin_keys ?d0)) - 1)" if v: "?d0 v = Some (Val x)" for v x
  proof -
    from v have vs: "v = s" "x = 0" "s \<noteq> ''__proto__''"
      by (auto simp: init_distances split: if_splits)
    then have "fin_keys ?d0 = {s}"
      by (auto simp: fin_keys_def init_distances split: if_splits)
    with vs show ?thesis by simp
  qed
  with init_sound [of _ s ns] show ?thesis unfolding run_inv_def by blast
qed

text \<open>On such an input \<open>bellmanFord\<close> returns the tables of the ideal run.\<close>

lemma bellmanFord_exact:
  assumes setting: "exact_setting (dom (fst (initTables_ideal ns s))) es s W L n"
    and run: "relax_loop_ideal (length ns - 1) es (initTables_ideal ns s) = (d, p)"
  shows "bellmanFord ns es s
      = \<lparr> distances = lift d, predecessors = p, hasNegativeCycle = (\<not> settled es d) \<rparr>"
proof -
  let ?V = "dom (fst (initTables_ideal ns s))"
  from setting have W0: "0 \<le> W" by (simp add: exact_setting_def)
  from run have "relax_loop_ideal (length ns - 1) es
      (fst (initTables_ideal ns s), snd (initTables_ideal ns s)) = (d, p)" by simp
  from loop_agree [OF setting init_run_inv [OF W0] this]
  have l: "relax_loop (length ns - 1) es (initTables ns s) = (lift d, p)"
    and inv: "run_inv ?V es s W d"
    by (simp_all add: init_agree)
  have "list_ex (relaxable (lift d)) es = (\<not> settled es d)"
    using relaxable_agree [OF inv setting] by (auto simp: list_ex_iff settled_def)
  with l show ?thesis by (simp add: bellmanFord_def)
qed



subsection \<open>Weights that are not negative\<close>







subsection \<open>A potential on the grid\<close>

lemma show_digit: "x < 10 \<Longrightarrow> show_int (int x) = [digit_char x]"
  by (simp add: show_int_def show_nat.simps)

lemma cell_name_inj:
  assumes "in_grid a" "in_grid b" "cell_name a = cell_name b"
  shows "a = b"
proof -
  from assms have "digit_char (fst a) = digit_char (fst b)" "digit_char (snd a) = digit_char (snd b)"
    by (simp_all add: cell_name_def node_name_def in_grid_def GRID_SIZE_def show_digit)
  with assms(1,2) have "fst a = fst b" "snd a = snd b"
    by (simp_all add: digit_char_def in_grid_def GRID_SIZE_def)
  then show ?thesis by (simp add: prod_eq_iff)
qed

lemma manhattan_triangle: "manhattan a c \<le> manhattan a b + manhattan b c"
  by (simp add: manhattan_def)

lemma manhattan_sym: "manhattan a b = manhattan b a"
  by (simp add: manhattan_def abs_minus_commute)

lemma manhattan_self [simp]: "manhattan a a = 0"
  by (simp add: manhattan_def)

lemma manhattan_nonneg: "0 \<le> manhattan a b"
  by (simp add: manhattan_def)

lemma potential_edge:
  assumes "grid_edge f t e" and "2 \<le> manhattan f t" and "in_grid f" and "in_grid t"
    and "efrom e = cell_name a" and "in_grid a"
  shows "\<exists>b. in_grid b \<and> eto e = cell_name b \<and> potential f t b \<le> potential f t a + weight e"
  using assms(1) unfolding grid_edge_def
proof (elim disjE exE conjE)
  fix a' b assume ab: "in_grid a'" "in_grid b" "manhattan a' b = 1"
    and e: "e = \<lparr> efrom = cell_name a', eto = cell_name b, weight = 10, isWarp = False \<rparr>"
  with assms(5,6) have "a' = a" by (auto intro: cell_name_inj)
  with ab have 1: "manhattan a b = 1" by simp
  have "manhattan b f \<le> manhattan a f + 1" "manhattan b t \<le> manhattan a t + 1"
    using manhattan_triangle [of b f a] manhattan_triangle [of b t a] 1
    by (simp_all add: manhattan_sym)
  then have "potential f t b \<le> potential f t a + 10"
    by (simp add: potential_def min_def)
  with ab(2) e show ?thesis by (intro exI [of _ b]) simp
next
  assume e: "e = \<lparr> efrom = cell_name f, eto = cell_name t, weight = - 15, isWarp = True \<rparr>"
  with assms(3,5,6) have "a = f" by (auto intro: cell_name_inj)
  then have "potential f t a = 0"
    using assms(2) by (simp add: potential_def manhattan_sym)
  moreover have "potential f t t \<le> - 15"
    by (simp add: potential_def)
  ultimately show ?thesis using assms(4) e by (intro exI [of _ t]) simp
qed

lemma potential_walk:
  assumes edges: "\<forall>e \<in> set es. grid_edge f t e" and far: "2 \<le> manhattan f t"
    and grid: "in_grid f" "in_grid t"
  shows "walk es u p v \<Longrightarrow> u = cell_name a \<Longrightarrow> in_grid a \<Longrightarrow>
     \<exists>b. in_grid b \<and> v = cell_name b \<and> potential f t b \<le> potential f t a + wsum p"
proof (induction p arbitrary: u a)
  case Nil
  then show ?case by (intro exI [of _ a]) simp
next
  case (Cons e p)
  then have e: "e \<in> set es" "efrom e = cell_name a" and rest: "walk es (eto e) p v"
    by auto
  from potential_edge [OF _ far grid e(2) Cons.prems(3)] edges e(1)
  obtain b where b: "in_grid b" "eto e = cell_name b"
    "potential f t b \<le> potential f t a + weight e" by blast
  from Cons.IH [OF rest b(2,1)] obtain c where
    "in_grid c" "v = cell_name c" "potential f t c \<le> potential f t b + wsum p" by blast
  with b(3) show ?case by (intro exI [of _ c]) simp
qed

lemma grid_edge_ends:
  assumes "grid_edge f t e" "in_grid f" "in_grid t"
  shows "\<exists>a b. in_grid a \<and> in_grid b \<and> efrom e = cell_name a \<and> eto e = cell_name b"
  using assms(1) unfolding grid_edge_def
proof (elim disjE exE conjE)
  fix a b assume "in_grid a" "in_grid b"
    "e = \<lparr> efrom = cell_name a, eto = cell_name b, weight = 10, isWarp = False \<rparr>"
  then show ?thesis by (intro exI [of _ a] exI [of _ b]) simp
next
  assume "e = \<lparr> efrom = cell_name f, eto = cell_name t, weight = - 15, isWarp = True \<rparr>"
  with assms(2,3) show ?thesis by (intro exI [of _ f] exI [of _ t]) simp
qed

lemma grid_closed_walks:
  assumes edges: "\<forall>e \<in> set es. grid_edge f t e" and far: "2 \<le> manhattan f t"
    and grid: "in_grid f" "in_grid t" and "walk es u c u"
  shows "0 \<le> wsum c"
proof (cases c)
  case Nil
  then show ?thesis by simp
next
  case (Cons e c')
  with assms(5) have "e \<in> set es" "efrom e = u" by auto
  with edges grid_edge_ends [OF _ grid] obtain a where a: "in_grid a" "u = cell_name a"
    by blast
  from potential_walk [OF edges far grid assms(5) a(2,1)] obtain b where
    b: "in_grid b" "u = cell_name b" "potential f t b \<le> potential f t a + wsum c" by blast
  from a b(1,2) have "a = b" by (auto intro: cell_name_inj)
  with b(3) show ?thesis by simp
qed

subsection \<open>The shape of a generated graph\<close>

lemma gridEdges_grid_edge:
  assumes "e \<in> set (gridEdges S)"
  shows "\<exists>a b. in_grid a \<and> in_grid b \<and> manhattan a b = 1
           \<and> e = \<lparr> efrom = cell_name a, eto = cell_name b, weight = 10, isWarp = False \<rparr>"
proof -
  from assms obtain x y where xy: "x < 10" "y < 10" "e \<in> set (neighborEdges S x y)"
    unfolding gridEdges_iff by blast
  have adj: "\<exists>a b. in_grid a \<and> in_grid b \<and> manhattan a b = 1
           \<and> adjEdge (fst c) (snd c) (fst c') (snd c')
               = \<lparr> efrom = cell_name a, eto = cell_name b, weight = 10, isWarp = False \<rparr>"
    if "in_grid c" "in_grid c'" "manhattan c c' = 1" for c c'
    using that by (intro exI [of _ c] exI [of _ c']) (simp add: adjEdge_def cell_name_def)
  from xy(3) consider
      (r1) "x + 1 < 10" "e = adjEdge x y (x + 1) y"
    | (r2) "x + 1 < 10" "e = adjEdge (x + 1) y x y"
    | (d1) "y + 1 < 10" "e = adjEdge x y x (y + 1)"
    | (d2) "y + 1 < 10" "e = adjEdge x (y + 1) x y"
    unfolding neighborEdges_iff by blast
  then show ?thesis
  proof cases
    case r1
    with xy adj [of "(x, y)" "(x + 1, y)"] show ?thesis
      by (simp add: in_grid_def GRID_SIZE_def manhattan_def)
  next
    case r2
    with xy adj [of "(x + 1, y)" "(x, y)"] show ?thesis
      by (simp add: in_grid_def GRID_SIZE_def manhattan_def)
  next
    case d1
    with xy adj [of "(x, y)" "(x, y + 1)"] show ?thesis
      by (simp add: in_grid_def GRID_SIZE_def manhattan_def)
  next
    case d2
    with xy adj [of "(x, y + 1)" "(x, y)"] show ?thesis
      by (simp add: in_grid_def GRID_SIZE_def manhattan_def)
  qed
qed

lemma gridNodes_cell:
  assumes "n \<in> set gridNodes"
  shows "\<exists>c. in_grid c \<and> n_id n = cell_name c \<and> gx n = real (fst c) \<and> gy n = real (snd c)"
proof -
  from assms obtain x y where xy: "x < GRID_SIZE" "y < GRID_SIZE"
    and n: "n = \<lparr> n_id = node_name (int x) (int y), n_x = MARGIN + real x * NODE_SPACING,
                  n_y = MARGIN + real y * NODE_SPACING, isPath = False, n_towerId = None \<rparr>"
    by (auto simp: gridNodes_def)
  then show ?thesis
    by (intro exI [of _ "(x, y)"])
       (simp add: in_grid_def cell_name_def gx_def gy_def NODE_SPACING_def)
qed

lemma markPath_cell:
  assumes "n \<in> set (markPath S gridNodes)"
  shows "\<exists>c. in_grid c \<and> n_id n = cell_name c \<and> gx n = real (fst c) \<and> gy n = real (snd c)"
proof -
  from assms obtain m where m: "m \<in> set gridNodes" "n_id n = n_id m" "gx n = gx m" "gy n = gy m"
    by (auto simp: markPath_def gx_def gy_def split: if_splits)
  with gridNodes_cell [OF m(1)] show ?thesis by simp
qed

lemma markPath_map: "map n_id (markPath S ns) = map n_id ns"
  by (induction ns) (auto simp: markPath_def)

lemma markPath_ids: "n_id ` set (markPath S ns) = n_id ` set ns"
  using markPath_map [of S ns] by (metis set_map)

lemma gridNodes_ids: "n_id ` set gridNodes = cell_name ` {c. in_grid c}"
proof (intro set_eqI iffI)
  fix v assume "v \<in> n_id ` set gridNodes"
  then obtain n where "n \<in> set gridNodes" "v = n_id n" by blast
  with gridNodes_cell show "v \<in> cell_name ` {c. in_grid c}" by blast
next
  fix v assume "v \<in> cell_name ` {c. in_grid c}"
  then obtain c where c: "in_grid c" "v = cell_name c" by blast
  let ?n = "\<lparr> n_id = node_name (int (fst c)) (int (snd c)),
               n_x = MARGIN + real (fst c) * NODE_SPACING,
               n_y = MARGIN + real (snd c) * NODE_SPACING, isPath = False, n_towerId = None \<rparr>"
  from c(1) have "?n \<in> set gridNodes"
    unfolding gridNodes_def in_grid_def
    by simp (intro bexI [of _ "snd c"] image_eqI [of _ _ "fst c"]; simp)
  moreover have "n_id ?n = v" using c(2) by (simp add: cell_name_def)
  ultimately show "v \<in> n_id ` set gridNodes" by (metis imageI)
qed

lemma warpEdges_shape:
  assumes "warpEdges rnd i stg (markPath S gridNodes) = Some w"
  shows "w = [] \<or> (\<exists>f t. in_grid f \<and> in_grid t \<and> 2 \<le> manhattan f t
            \<and> w = [\<lparr> efrom = cell_name f, eto = cell_name t, weight = - 15, isWarp = True \<rparr>])"
proof (cases "w = []")
  case True
  then show ?thesis by simp
next
  case False
  let ?ns = "markPath S gridNodes"
  let ?pNodes = "filter isPath ?ns"
  let ?cF = "filter (\<lambda>n. gx n + gy n < real GRID_SIZE * 0.4) ?pNodes"
  let ?cT = "filter (\<lambda>n. (real GRID_SIZE - 1 - gx n) + (real GRID_SIZE - 1 - gy n)
                                 \<ge> MIN_DIST_TO_END) ?pNodes"
  from assms False obtain nf nt where pk: "pick ?cF (rnd i) = Some nf" "pick ?cT (rnd (Suc i)) = Some nt"
    and far: "(gx nt + gy nt) - (gx nf + gy nf) > 2"
    and w: "w = [\<lparr> efrom = n_id nf, eto = n_id nt, weight = - 15, isWarp = True \<rparr>]"
    by (auto simp: warpEdges_def Let_def split: if_splits option.splits)
  from pick_in [OF pk(1)] pick_in [OF pk(2)] have "nf \<in> set ?ns" "nt \<in> set ?ns" by auto
  with markPath_cell obtain f t where
    f: "in_grid f" "n_id nf = cell_name f" "gx nf = real (fst f)" "gy nf = real (snd f)"
    and t: "in_grid t" "n_id nt = cell_name t" "gx nt = real (fst t)" "gy nt = real (snd t)"
    by metis
  from far f t have "2 \<le> manhattan f t"
    by (simp add: manhattan_def)
  with f t w show ?thesis by blast
qed

lemma generated_shape:
  assumes "generateGraph rnd stg = Some g"
  shows "\<exists>f t. in_grid f \<and> in_grid t \<and> 2 \<le> manhattan f t
           \<and> (\<forall>e \<in> set (g_edges g). grid_edge f t e)
           \<and> length (filter isWarp (g_edges g)) \<le> 1
           \<and> n_id ` set (g_nodes g) = cell_name ` {c. in_grid c}"
proof -
  from assms obtain S i w where w: "warpEdges rnd i stg (markPath S gridNodes) = Some w"
    and g: "g_edges g = gridEdges S @ w" "g_nodes g = markPath S gridNodes"
    by (auto simp: generateGraph_def Let_def split: option.splits prod.splits)
  have ids: "n_id ` set (g_nodes g) = cell_name ` {c. in_grid c}"
    by (simp add: g markPath_ids gridNodes_ids)
  have nowarp: "filter isWarp (gridEdges S) = []"
    using gridEdges_grid_edge by (fastforce simp: filter_empty_conv)
  from warpEdges_shape [OF w] show ?thesis
  proof
    assume "w = []"
    have far: "in_grid (0, 0)" "in_grid (9, 9)" "2 \<le> manhattan (0, 0) (9, 9)"
      by (simp_all add: in_grid_def GRID_SIZE_def manhattan_def)
    have "\<forall>e \<in> set (g_edges g). grid_edge (0, 0) (9, 9) e"
      using gridEdges_grid_edge \<open>w = []\<close> by (auto simp: g grid_edge_def)
    with far ids nowarp \<open>w = []\<close> g show ?thesis by force
  next
    assume "\<exists>f t. in_grid f \<and> in_grid t \<and> 2 \<le> manhattan f t
            \<and> w = [\<lparr> efrom = cell_name f, eto = cell_name t, weight = - 15, isWarp = True \<rparr>]"
    then obtain f t where ft: "in_grid f" "in_grid t" "2 \<le> manhattan f t"
      and w': "w = [\<lparr> efrom = cell_name f, eto = cell_name t, weight = - 15, isWarp = True \<rparr>]"
      by blast
    have "\<forall>e \<in> set (g_edges g). grid_edge f t e"
      using gridEdges_grid_edge w' by (auto simp: g grid_edge_def)
    moreover have "length (filter isWarp (g_edges g)) \<le> 1"
      by (simp add: g nowarp w')
    ultimately show ?thesis using ft ids by blast
  qed
qed

subsection \<open>A source outside the graph\<close>

lemma settled_pass:
  "settled es d \<Longrightarrow> set es1 \<subseteq> set es \<Longrightarrow> foldl relax_ideal (d, p, c) es1 = (d, p, c)"
proof (induction es1)
  case Nil
  then show ?case by simp
next
  case (Cons e es1)
  then have "\<not> relaxable_ideal d e" by (simp add: settled_def)
  then have "relax_ideal (d, p, c) e = (d, p, c)"
    by (cases rule: relax_cases [where d = d and e = e and p = p and c = c]) auto
  with Cons show ?case by simp
qed

lemma settled_loop: "settled es d \<Longrightarrow> relax_loop_ideal k es (d, p) = (d, p)"
  by (cases k) (simp_all add: relax_pass_ideal_def settled_pass)

lemma outside_source_settled:
  assumes "s \<notin> n_id ` set ns" and "\<forall>e \<in> set es. efrom e \<in> n_id ` set ns"
  shows "settled es (fst (initTables_ideal ns s))"
  unfolding settled_def
proof
  fix e assume "e \<in> set es"
  with assms have "efrom e \<in> n_id ` set ns" "efrom e \<noteq> s" by auto
  then have "fst (initTables_ideal ns s) (efrom e) = Some Unreached
      \<or> fst (initTables_ideal ns s) (efrom e) = None"
    by (simp add: init_distances)
  then show "\<not> relaxable_ideal (fst (initTables_ideal ns s)) e"
    by (auto simp: relaxable_ideal_def split: option.splits)
qed

lemma walk_inGraph: "walk (inGraph V es) u p v \<Longrightarrow> walk es u p v"
  by (rule walk_mono) (auto simp: inGraph_iff)

subsection \<open>No sum rounds on a generated graph\<close>

lemma potential_bounds:
  assumes "in_grid c" "in_grid f" "in_grid t"
  shows "- 15 \<le> potential f t c \<and> potential f t c \<le> 180"
proof -
  have m: "0 \<le> manhattan c a \<and> manhattan c a \<le> 18" if "in_grid a" for a
    using that assms(1) by (auto simp: manhattan_def in_grid_def GRID_SIZE_def)
  from m [OF assms(2)] m [OF assms(3)] show ?thesis
    by (simp add: potential_def min_def)
qed

lemma generated_walks_low:
  assumes edges: "\<forall>e \<in> set es. grid_edge f t e" and far: "2 \<le> manhattan f t"
    and grid: "in_grid f" "in_grid t" and w: "walk es u p v"
  shows "- 195 \<le> wsum p"
proof (cases p)
  case Nil
  then show ?thesis by simp
next
  case (Cons e p')
  with w have "e \<in> set es" "efrom e = u" by auto
  with edges grid_edge_ends [OF _ grid] obtain a where a: "in_grid a" "u = cell_name a"
    by blast
  from potential_walk [OF edges far grid w a(2,1)] obtain b where
    b: "in_grid b" "potential f t b \<le> potential f t a + wsum p" by blast
  from potential_bounds [OF a(1) grid] potential_bounds [OF b(1) grid] b(2)
  show ?thesis by linarith
qed

lemma gridNodes_length: "length gridNodes = 100"
  by (simp add: gridNodes_def GRID_SIZE_def length_concat comp_def sum_list_triv)

lemma cell_name_proto: "cell_name c \<noteq> ''__proto__''"
  by (simp add: cell_name_def node_name_def)

lemma generated_flag:
  assumes "generateGraph rnd stg = Some g"
  shows "(\<forall>u c. walk (g_edges g) u c u \<longrightarrow> 0 \<le> wsum c)
       \<and> \<not> hasNegativeCycle (bellmanFord (g_nodes g) (g_edges g) s)"
proof -
  let ?ns = "g_nodes g" and ?es = "g_edges g"
  let ?d0 = "fst (initTables_ideal ?ns s)"
  from generated_shape [OF assms] obtain f t where
    ft: "in_grid f" "in_grid t" "2 \<le> manhattan f t"
    and edges: "\<forall>e \<in> set ?es. grid_edge f t e"
    and ids: "n_id ` set ?ns = cell_name ` {c. in_grid c}"
    by blast
  from assms obtain S where "g_nodes g = markPath S gridNodes"
    by (auto simp: generateGraph_def Let_def split: option.splits prod.splits)
  then have len: "length ?ns = 100" by (simp add: markPath_def gridNodes_length)
  have np: "''__proto__'' \<notin> n_id ` set ?ns"
  proof
    assume "''__proto__'' \<in> n_id ` set ?ns"
    then obtain c where "cell_name c = ''__proto__''" unfolding ids by auto
    then show False by (simp add: cell_name_proto)
  qed
  have nnc: "0 \<le> wsum c" if "walk ?es u c u" for u c
    using grid_closed_walks [OF edges ft(3,1,2) that] .
  obtain d p where run: "relax_loop_ideal (length ?ns - 1) ?es (initTables_ideal ?ns s) = (d, p)"
    by (cases "relax_loop_ideal (length ?ns - 1) ?es (initTables_ideal ?ns s)") auto
  have "exact_setting (dom ?d0) ?es s 15 195 (length ?ns)"
    unfolding exact_setting_def
  proof (intro conjI ballI allI impI)
    show "finite (dom ?d0)" by (simp add: init_dom)
    have "card (dom ?d0) \<le> card (insert s (n_id ` set ?ns))"
      unfolding init_dom by (intro card_mono) auto
    also have "\<dots> \<le> Suc (card (n_id ` set ?ns))" by (simp add: card_insert_if)
    also have "\<dots> \<le> Suc (length ?ns)"
      using card_image_le [of "set ?ns" n_id] card_length [of ?ns] by simp
    finally show "card (dom ?d0) \<le> Suc (length ?ns)" .
    show "''__proto__'' \<notin> dom ?d0" by (simp add: init_dom)
    show "(0::real) \<le> 15" "(0::real) \<le> 195" by simp_all
    show "195 + 15 * (real (length ?ns) + 1) \<le> (2::real) ^ 53" by (simp add: len)
  next
    fix e assume "e \<in> set ?es"
    with edges have "grid_edge f t e" by blast
    then have "weight e = 10 \<or> weight e = - 15"
      unfolding grid_edge_def by (elim disjE exE conjE) simp_all
    then show "weight e \<in> \<int>" "\<bar>weight e\<bar> \<le> 15" by auto
  next
    fix q v assume "walk (inGraph (dom ?d0) ?es) s q v"
    then have "walk ?es s q v" by (rule walk_inGraph)
    from generated_walks_low [OF edges ft(3,1,2) this] show "- 195 \<le> wsum q" .
  qed
  from bellmanFord_exact [OF this run]
  have r: "hasNegativeCycle (bellmanFord ?ns ?es s) = (\<not> settled ?es d)" by simp
  have "settled ?es d"
  proof (cases "s \<in> n_id ` set ?ns")
    case True
    have "\<forall>u c. walk (inGraph (insert s (n_id ` set ?ns)) ?es) u c u \<longrightarrow> 0 \<le> wsum c"
      using nnc walk_inGraph by blast
    from bellmanFord_settled [OF this True np run] show ?thesis by simp
  next
    case False
    have "\<forall>e \<in> set ?es. efrom e \<in> n_id ` set ?ns"
      using edges grid_edge_ends [OF _ ft(1,2)] ids by blast
    from outside_source_settled [OF False this]
    have st: "settled ?es ?d0" .
    from settled_loop [OF this, of "length ?ns - 1" "snd (initTables_ideal ?ns s)"] run
    have "d = ?d0" by simp
    with st show ?thesis by simp
  qed
  with r nnc show ?thesis by blast
qed

lemma generated_weights:
  assumes "generateGraph rnd stg = Some g" and "e \<in> set (g_edges g)"
  shows "weight e = (if isWarp e then - 15 else 10)"
proof -
  from generated_shape [OF assms(1)] obtain f t where "\<forall>e \<in> set (g_edges g). grid_edge f t e"
    by blast
  with assms(2) have "grid_edge f t e" by blast
  then show ?thesis unfolding grid_edge_def by (elim disjE exE conjE) simp_all
qed

text \<open>
  Claim C1. Whatever the stage number and the random values, a graph that \<open>generateGraph\<close>
  returns has weight 10 on every adjacency edge and weight -15 on every warp edge, at most
  one warp edge, and no closed walk of negative weight; and \<open>bellmanFord\<close> reports no
  negative cycle on it, for any source. \<open>generateGraph\<close> does return a graph whenever the
  random values keep to \<open>[0, 1)\<close>.
\<close>

theorem generated_graph_no_negative_cycle:
  "(valid_rnd rnd \<longrightarrow> (\<exists>g. generateGraph rnd stg = Some g))
   \<and> (\<forall>g. generateGraph rnd stg = Some g \<longrightarrow>
         (\<forall>e \<in> set (g_edges g). weight e = (if isWarp e then - 15 else 10))
       \<and> length (filter isWarp (g_edges g)) \<le> 1
       \<and> (\<forall>u c. walk (g_edges g) u c u \<longrightarrow> 0 \<le> wsum c)
       \<and> (\<forall>sourceId. \<not> hasNegativeCycle (bellmanFord (g_nodes g) (g_edges g) sourceId)))"
proof (intro conjI impI allI)
  show "\<exists>g. generateGraph rnd stg = Some g" if "valid_rnd rnd"
    using that by (rule generateGraph_total)
next
  fix g assume g: "generateGraph rnd stg = Some g"
  show "\<forall>e \<in> set (g_edges g). weight e = (if isWarp e then - 15 else 10)"
    using generated_weights [OF g] by blast
  show "length (filter isWarp (g_edges g)) \<le> 1"
    using generated_shape [OF g] by blast
  show "0 \<le> wsum c" if "walk (g_edges g) u c u" for u c
    using generated_flag [OF g] that by blast
  show "\<not> hasNegativeCycle (bellmanFord (g_nodes g) (g_edges g) sourceId)" for sourceId
    using generated_flag [OF g] by blast
qed

theorem generated_graph_no_negative_cycle_witness:
  "\<exists>g. generateGraph (\<lambda>i. 0) 2 = Some g
      \<and> length (filter isWarp (g_edges g)) \<le> 1
      \<and> \<not> hasNegativeCycle (bellmanFord (g_nodes g) (g_edges g) ''node_9_9'')"
proof -
  have "valid_rnd (\<lambda>i. 0)" by (simp add: valid_rnd_def)
  with generated_graph_no_negative_cycle [of "\<lambda>i. 0" 2] show ?thesis by blast
qed

end
